theory Spec2Isabelle
  imports Complex_Main
begin

section \<open>Strings\<close>

text \<open>
  A Python \<open>str\<close> is a sequence of Unicode code points; it is modelled as a list of
  natural numbers, one per code point. \<open>lit\<close> turns an ASCII literal into such a string.
  \<open>isspace\<close> lists the code points that \<open>str.strip()\<close> removes (the ones for which
  \<open>str.isspace\<close> holds), \<open>strip\<close> removes them at both ends and \<open>endswith\<close> is
  \<open>str.endswith\<close>.
\<close>

type_synonym str = "nat list"

definition lit :: "string \<Rightarrow> str" where
  "lit cs = map of_char cs"

definition isspace :: "nat \<Rightarrow> bool" where
  "isspace c = ((0x09 \<le> c \<and> c \<le> 0x0D) \<or> (0x1C \<le> c \<and> c \<le> 0x20) \<or> c = 0x85 \<or> c = 0xA0
       \<or> c = 0x1680 \<or> (0x2000 \<le> c \<and> c \<le> 0x200A) \<or> c = 0x2028 \<or> c = 0x2029
       \<or> c = 0x202F \<or> c = 0x205F \<or> c = 0x3000)"

definition strip :: "str \<Rightarrow> str" where
  "strip q = rev (dropWhile isspace (rev (dropWhile isspace q)))"

definition endswith :: "str \<Rightarrow> str \<Rightarrow> bool" where
  "endswith q suffix = (length suffix \<le> length q \<and> drop (length q - length suffix) q = suffix)"

text \<open>
  \<^verbatim>\<open>
  def normalize_question(q: str) -> str:
      q = q.strip()
      if not q.endswith("?"):
          q += "?"
      return q
  \<close>
\<close>

definition normalize_question :: "str \<Rightarrow> str" where
  "normalize_question q =
     (let q = strip q in if \<not> endswith q (lit ''?'') then q @ lit ''?'' else q)"

section \<open>Values, dict objects and the object store\<close>

text \<open>
  The tree is made of Python dicts, which are mutable objects: \<open>learn\<close> overwrites a slot
  of a dict that is held by the tree and by the path of the session at the same time.
  Objects therefore live in a store, a list of dict objects addressed by position. A value
  is a string, a reference \<open>Dict a\<close> to the dict object at address \<open>a\<close>, or any other JSON
  value (number, boolean, null, array), which the program never looks into (\<open>Other\<close>). A
  dict object is the list of its (key, value) pairs in insertion order, every key once; the
  keys are strings, since every dict of the program comes from a dict display with string
  keys or from \<open>json.load\<close>. Python has no dangling reference: an address held by a value is
  an index of the store, and the properties below say so where they read the store.
\<close>

type_synonym addr = nat

datatype 'a val = Other 'a | Str str | Dict addr

type_synonym 'a dict = "(str \<times> 'a val) list"

type_synonym 'a heap = "'a dict list"

text \<open>
  \<open>dict_has d k\<close> is \<open>k in d\<close>, \<open>dict_get d k\<close> is the lookup of \<open>d.get(k)\<close> and
  \<open>d[k]\<close> (\<open>None\<close> when the key is absent), \<open>dict_set d k v\<close> is \<open>d[k] = v\<close>: the value
  of an existing key is replaced where it stands, a new key goes to the end. \<open>alloc\<close>
  creates a dict object.
\<close>

definition dict_has :: "'a dict \<Rightarrow> str \<Rightarrow> bool" where
  "dict_has d k = (k \<in> set (map fst d))"

definition dict_get :: "'a dict \<Rightarrow> str \<Rightarrow> 'a val option" where
  "dict_get d k = map_of d k"

fun dict_set :: "'a dict \<Rightarrow> str \<Rightarrow> 'a val \<Rightarrow> 'a dict" where
  "dict_set [] k v = [(k, v)]"
| "dict_set ((k', v') # d) k v = (if k' = k then (k, v) # d else (k', v') # dict_set d k v)"

definition alloc :: "'a heap \<Rightarrow> 'a dict \<Rightarrow> 'a val \<times> 'a heap" where
  "alloc h d = (Dict (length h), h @ [d])"

text \<open>
  The exceptions that the modelled code can raise: \<open>AttributeError\<close> (\<open>.get\<close> on a value
  that is not a dict), \<open>TypeError\<close> (subscript or item assignment on a value that is not a
  dict), \<open>KeyError\<close>, \<open>OSError\<close> (a file that cannot be opened), the \<open>ValueError\<close> of
  \<open>json.dump\<close> on a circular structure, its \<open>UnicodeEncodeError\<close> and \<open>RecursionError\<close>,
  the \<open>ValueError\<close> that \<open>import_tree\<close> raises on a document that is not a decision tree,
  \<open>JSONDecodeError\<close>, and the \<open>ZeroDivisionError\<close> and \<open>OverflowError\<close> of the division
  of two integers.
\<close>

datatype error = AttributeError | TypeError | KeyError | OSError | ValueError_circular
  | UnicodeEncodeError | RecursionError | ValueError_not_a_tree | JSONDecodeError
  | ZeroDivisionError | OverflowError

text \<open>
  A JSON document, as \<open>json.dump\<close> writes it and \<open>json.load\<close> reads it. \<open>json_load\<close>
  builds the objects of a document in the store, the children before their parent, as
  \<open>json.load\<close> does and as the evaluation of a nested dict display does; a repeated key keeps
  its first position and its last value, as in \<open>dict(pairs)\<close>.

  \<open>dump\<close> walks the objects that a value reaches into a document. \<open>json.dump\<close> raises
  \<open>ValueError\<close> (circular reference) on a structure that contains itself; here the walk has
  fuel, one unit per nested dict, and \<open>json_dump\<close> gives it the number of objects of the
  store: a chain of nested dicts that is longer passes through some object twice. The result
  \<open>None\<close> is that error (an address outside the store, which no value of the program holds,
  gives \<open>None\<close> as well).
\<close>

datatype 'a json = JOther 'a | JStr str | JObj "(str \<times> 'a json) list"

fun json_load :: "'a json \<Rightarrow> 'a heap \<Rightarrow> 'a val \<times> 'a heap"
  and json_load_items :: "(str \<times> 'a json) list \<Rightarrow> 'a dict \<Rightarrow> 'a heap \<Rightarrow> 'a dict \<times> 'a heap" where
  "json_load (JOther x) h = (Other x, h)"
| "json_load (JStr s) h = (Str s, h)"
| "json_load (JObj kvs) h = (let (d, h') = json_load_items kvs [] h in alloc h' d)"
| "json_load_items [] d h = (d, h)"
| "json_load_items ((k, j) # kvs) d h =
     (let (v, h') = json_load j h in json_load_items kvs (dict_set d k v) h')"

fun dump :: "nat \<Rightarrow> 'a heap \<Rightarrow> 'a val \<Rightarrow> 'a json option"
  and dump_items :: "nat \<Rightarrow> 'a heap \<Rightarrow> 'a dict \<Rightarrow> (str \<times> 'a json) list option" where
  "dump n h (Other x) = Some (JOther x)"
| "dump n h (Str s) = Some (JStr s)"
| "dump 0 h (Dict a) = None"
| "dump (Suc n) h (Dict a) =
     (if a < length h then map_option JObj (dump_items n h (h ! a)) else None)"
| "dump_items n h [] = Some []"
| "dump_items n h ((k, v) # d) =
     (case dump n h v of
        None \<Rightarrow> None
      | Some j \<Rightarrow> (case dump_items n h d of None \<Rightarrow> None | Some js \<Rightarrow> Some ((k, j) # js)))"

definition json_dump :: "'a heap \<Rightarrow> 'a val \<Rightarrow> 'a json option" where
  "json_dump h v = dump (length h) h v"

text \<open>
  \<open>json.dump(tree, f, ensure_ascii=False, indent=2)\<close> writes the document piece by piece
  into a file opened with \<open>encoding="utf-8"\<close>, and two things can stop it on the way. A
  string with a surrogate code point (\<open>U+D800\<close> to \<open>U+DFFF\<close>) cannot be encoded: the write
  of that key or value raises \<open>UnicodeEncodeError\<close>. And the encoder descends one call
  deeper for every nested dict: beyond the depth that the recursion limit of the interpreter
  leaves, the descent raises \<open>RecursionError\<close>. \<open>dump_error n d\<close> is the first exception
  met while the document \<open>d\<close> is written when \<open>n\<close> nested dicts are within the limit,
  if there is any: the keys and values are written in order, a key before its value. The
  text of a value \<open>JOther\<close> is taken to raise nothing, which is so for an integer, a
  boolean and \<open>null\<close> (an array is opaque here, as everywhere in the model, and a float
  takes one call more than a string). On a circular structure \<open>json.dump\<close> raises
  \<open>ValueError\<close> when the walk comes back to a dict that it is inside of, unless one of
  these two exceptions stops it before; the model has \<open>ValueError\<close> there (the tree of
  the program is never circular, as the last sections show).
\<close>

definition utf8_encodable :: "str \<Rightarrow> bool" where
  "utf8_encodable s = list_all (\<lambda>c. c < 0xD800 \<or> 0xDFFF < c) s"

fun dump_error :: "nat \<Rightarrow> 'a json \<Rightarrow> error option"
  and dump_error_items :: "nat \<Rightarrow> (str \<times> 'a json) list \<Rightarrow> error option" where
  "dump_error n (JOther x) = None"
| "dump_error n (JStr s) = (if utf8_encodable s then None else Some UnicodeEncodeError)"
| "dump_error 0 (JObj kvs) = Some RecursionError"
| "dump_error (Suc n) (JObj kvs) = dump_error_items n kvs"
| "dump_error_items n [] = None"
| "dump_error_items n ((k, j) # kvs) =
     (if \<not> utf8_encodable k then Some UnicodeEncodeError
      else case dump_error n j of Some e \<Rightarrow> Some e | None \<Rightarrow> dump_error_items n kvs)"

text \<open>
  What makes a document writable, said of the document as a whole: no string of it, key or
  value, has a surrogate code point, and its dicts are nested no deeper than the limit.
\<close>

fun utf8_doc :: "'a json \<Rightarrow> bool"
  and utf8_items :: "(str \<times> 'a json) list \<Rightarrow> bool" where
  "utf8_doc (JOther x) = True"
| "utf8_doc (JStr s) = utf8_encodable s"
| "utf8_doc (JObj kvs) = utf8_items kvs"
| "utf8_items [] = True"
| "utf8_items ((k, j) # kvs) = (utf8_encodable k \<and> utf8_doc j \<and> utf8_items kvs)"

fun doc_depth :: "'a json \<Rightarrow> nat"
  and depth_items :: "(str \<times> 'a json) list \<Rightarrow> nat" where
  "doc_depth (JOther x) = 0"
| "doc_depth (JStr s) = 0"
| "doc_depth (JObj kvs) = Suc (depth_items kvs)"
| "depth_items [] = 0"
| "depth_items ((k, j) # kvs) = max (doc_depth j) (depth_items kvs)"

section \<open>Files, the knowledge store and the game session\<close>

text \<open>
  A file is modelled by the document it holds: it is missing, or its content cannot be
  parsed (an empty or partly written file is of this kind), or it holds a document. The
  disk has the two files of the program, \<open>DATA_FILE = "hk_knowledge.json"\<close> and
  \<open>STATS_FILE = "hk_stats.json"\<close>. With them go the two figures of the running
  interpreter on which saving and loading depend: \<open>dump_limit\<close>, the number of nested
  dicts that \<open>json.dump\<close> can descend into before the recursion limit is reached
  (\<open>sys.getrecursionlimit()\<close>, 1000 unless changed, less the calls in progress), and
  \<open>load_limit\<close>, the number of nested objects that \<open>json.load\<close> can descend into
  before it raises \<open>RecursionError\<close> in its turn.
\<close>

datatype 'c file_state = Missing | Unparsable | Holds 'c

record 'a disk =
  data_file :: "'a json file_state"
  stats_file :: "(str \<rightharpoonup> int) file_state"
  dump_limit :: nat
  load_limit :: nat

text \<open>
  The dict display that \<open>default_tree()\<close> returns, key by key in the order of the source;
  the letters of the Spanish texts outside ASCII are written as their code points.
\<close>

definition default_tree_doc :: "'a json" where
  "default_tree_doc =
    JObj
     [(lit ''q'', JStr ([0xBF] @ lit ''Es un jefe o te enfrentas a '' @ [0xE9] @ lit ''l/ella en combate principal?'')),
      (lit ''yes'', JObj
       [(lit ''q'', JStr ([0xBF] @ lit ''Es una entidad divina o regente del Reino?'')),
        (lit ''yes'', JObj
         [(lit ''q'', JStr ([0xBF] @ lit ''Est'' @ [0xE1] @ lit '' asociada directamente a la luz y los sue'' @ [0xF1] @ lit ''os?'')),
          (lit ''yes'', JObj [(lit ''guess'', JStr (lit ''Radiancia''))]),
          (lit ''no'', JObj [(lit ''guess'', JStr (lit ''Rey P'' @ [0xE1] @ lit ''lido''))])]),
        (lit ''no'', JObj
         [(lit ''q'', JStr ([0xBF] @ lit ''Se presenta en plural o en equipo durante el combate?'')),
          (lit ''yes'', JObj [(lit ''guess'', JStr (lit ''Se'' @ [0xF1] @ lit ''ores Mantis''))]),
          (lit ''no'', JObj
           [(lit ''q'', JStr ([0xBF] @ lit ''Usa una aguja e hilo en combate?'')),
            (lit ''yes'', JObj [(lit ''guess'', JStr (lit ''Hornet''))]),
            (lit ''no'', JObj
             [(lit ''q'', JStr ([0xBF] @ lit ''Lidera una troupe y es teatral?'')),
              (lit ''yes'', JObj [(lit ''guess'', JStr (lit ''Grimm''))]),
              (lit ''no'', JObj
               [(lit ''q'', JStr ([0xBF] @ lit ''Es un recipiente silencioso sellado?'')),
                (lit ''yes'', JObj [(lit ''guess'', JStr (lit ''Hollow Knight''))]),
                (lit ''no'', JObj [(lit ''guess'', JStr (lit ''Nosk''))])])])])])]),
      (lit ''no'', JObj
       [(lit ''q'', JStr ([0xBF] @ lit ''Es cart'' @ [0xF3] @ lit ''grafo y tararea mientras hace mapas?'')),
        (lit ''yes'', JObj [(lit ''guess'', JStr (lit ''Cornifer''))]),
        (lit ''no'', JObj
         [(lit ''q'', JStr ([0xBF] @ lit ''Es fanfarr'' @ [0xF3] @ lit ''n y presume 57 preceptos?'')),
          (lit ''yes'', JObj [(lit ''guess'', JStr (lit ''Zote el Poderoso''))]),
          (lit ''no'', JObj
           [(lit ''q'', JStr ([0xBF] @ lit ''Es un artista y maestro del aguij'' @ [0xF3] @ lit ''n retirado?'')),
            (lit ''yes'', JObj [(lit ''guess'', JStr (lit ''Maestro del Aguij'' @ [0xF3] @ lit ''n Sheo''))]),
            (lit ''no'', JObj
             [(lit ''q'', JStr ([0xBF] @ lit ''Es aventurera con gran armadura?'')),
              (lit ''yes'', JObj [(lit ''guess'', JStr (lit ''Cloth''))]),
              (lit ''no'', JObj
               [(lit ''q'', JStr ([0xBF] @ lit ''Es un explorador amable con casco azul?'')),
                (lit ''yes'', JObj [(lit ''guess'', JStr (lit ''Quirrel''))]),
                (lit ''no'', JObj
                 [(lit ''q'', JStr ([0xBF] @ lit ''Es una joven rom'' @ [0xE1] @ lit ''ntica que admira a Zote?'')),
                  (lit ''yes'', JObj [(lit ''guess'', JStr (lit ''Bretta''))]),
                  (lit ''no'', JObj
                   [(lit ''q'', JStr ([0xBF] @ lit ''Busca gloria en el coliseo y tiene un destino tr'' @ [0xE1] @ lit ''gico?'')),
                    (lit ''yes'', JObj [(lit ''guess'', JStr (lit ''Tiso''))]),
                    (lit ''no'', JObj [(lit ''guess'', JStr (lit ''El Caballero''))])])])])])])])])]"

text \<open>
  Each call of \<open>default_tree()\<close> evaluates the display and so builds new objects.
\<close>

definition default_tree :: "'a heap \<Rightarrow> 'a val \<times> 'a heap" where
  "default_tree h = json_load default_tree_doc h"

text \<open>
  \<^verbatim>\<open>
  def load_tree() -> Dict[str, Any]:
      if not os.path.exists(DATA_FILE):
          t = default_tree()
          save_tree(t)
          return t
      with open(DATA_FILE, "r", encoding="utf-8") as f:
          return json.load(f)

  def save_tree(tree: Dict[str, Any]) -> None:
      with open(DATA_FILE, "w", encoding="utf-8") as f:
          json.dump(tree, f, ensure_ascii=False, indent=2)
  \<close>
  \<open>save_tree\<close> returns the exception raised, if any, and the disk after the call. The
  \<open>open\<close> in mode \<open>"w"\<close> has emptied the file before \<open>json.dump\<close> starts, so when
  \<open>json.dump\<close> raises, the file is left with the part written so far, which cannot be
  parsed; when it does not, the file holds the document of the tree. In \<open>load_tree\<close>,
  \<open>json.load\<close> raises \<open>RecursionError\<close> on a file whose document is nested beyond
  \<open>load_limit\<close>.

  \<open>load_stats\<close> and \<open>save_stats\<close> are the same with \<open>STATS_FILE\<close> and the default
  \<open>{"played": 0, "wins": 0, "learned": 0}\<close>; the statistics are a dict from strings to
  integers (\<open>Dict[str, int]\<close>), modelled as a map.
\<close>

definition save_tree :: "'a heap \<Rightarrow> 'a val \<Rightarrow> 'a disk \<Rightarrow> error option \<times> 'a disk" where
  "save_tree h tree dk =
     (case json_dump h tree of
        None \<Rightarrow> (Some ValueError_circular, dk\<lparr>data_file := Unparsable\<rparr>)
      | Some d \<Rightarrow>
          (case dump_error (dump_limit dk) d of
             Some e \<Rightarrow> (Some e, dk\<lparr>data_file := Unparsable\<rparr>)
           | None \<Rightarrow> (None, dk\<lparr>data_file := Holds d\<rparr>)))"

definition load_tree :: "'a heap \<Rightarrow> 'a disk \<Rightarrow> error + ('a val \<times> 'a heap \<times> 'a disk)" where
  "load_tree h dk =
     (case data_file dk of
        Missing \<Rightarrow>
          (let (t, h') = default_tree h
           in case save_tree h' t dk of (Some e, dk') \<Rightarrow> Inl e | (None, dk') \<Rightarrow> Inr (t, h', dk'))
      | Unparsable \<Rightarrow> Inl JSONDecodeError
      | Holds d \<Rightarrow>
          (if load_limit dk < doc_depth d then Inl RecursionError
           else let (t, h') = json_load d h in Inr (t, h', dk)))"

definition save_stats :: "(str \<rightharpoonup> int) \<Rightarrow> 'a disk \<Rightarrow> 'a disk" where
  "save_stats stats dk = dk\<lparr>stats_file := Holds stats\<rparr>"

definition load_stats :: "'a disk \<Rightarrow> error + ((str \<rightharpoonup> int) \<times> 'a disk)" where
  "load_stats dk =
     (case stats_file dk of
        Missing \<Rightarrow>
          (let stats = [lit ''played'' \<mapsto> 0, lit ''wins'' \<mapsto> 0, lit ''learned'' \<mapsto> 0]
           in Inr (stats, save_stats stats dk))
      | Unparsable \<Rightarrow> Inl JSONDecodeError
      | Holds stats \<Rightarrow> Inr (stats, dk))"

text \<open>
  \<^verbatim>\<open>
  def is_leaf(node: Dict[str, Any]) -> bool:
      return isinstance(node, dict) and "guess" in node
  \<close>
\<close>

definition is_leaf :: "'a heap \<Rightarrow> 'a val \<Rightarrow> bool" where
  "is_leaf h node = (case node of Dict a \<Rightarrow> dict_has (h ! a) (lit ''guess'') | _ \<Rightarrow> False)"

text \<open>
  \<^verbatim>\<open>
  class GameState:
      def __init__(self, tree: Dict[str, Any]):
          self.tree = tree
          self.path = []
          self.node = tree

      def restart(self):
          self.path.clear()
          self.node = self.tree

      def answer(self, ans: str) -> None:
          if is_leaf(self.node):
              return
          branch = "yes" if ans == "yes" else "no"
          self.path.append((self.node, branch))
          self.node = self.node.get(branch, {})
  \<close>
  The methods take the store and return it, since \<open>answer\<close> may create the empty dict
  of \<open>.get(branch, {})\<close> (when the branch is present that dict is referenced by nothing,
  and the model does not create it). An exception is the result \<open>Inl\<close>.
\<close>

record 'a GameState =
  tree :: "'a val"
  path :: "('a val \<times> str) list"
  node :: "'a val"

definition GameState_init :: "'a val \<Rightarrow> 'a GameState" where
  "GameState_init t = \<lparr>tree = t, path = [], node = t\<rparr>"

definition restart :: "'a GameState \<Rightarrow> 'a GameState" where
  "restart self = self\<lparr>path := [], node := tree self\<rparr>"

definition answer :: "'a heap \<Rightarrow> 'a GameState \<Rightarrow> str \<Rightarrow> error + ('a heap \<times> 'a GameState)" where
  "answer h self ans =
     (if is_leaf h (node self) then Inr (h, self)
      else
        let branch = (if ans = lit ''yes'' then lit ''yes'' else lit ''no'');
            self1 = self\<lparr>path := path self @ [(node self, branch)]\<rparr>
        in case node self1 of
             Dict a \<Rightarrow>
               (case dict_get (h ! a) branch of
                  Some child \<Rightarrow> Inr (h, self1\<lparr>node := child\<rparr>)
                | None \<Rightarrow> (let (e, h') = alloc h [] in Inr (h', self1\<lparr>node := e\<rparr>)))
           | _ \<Rightarrow> Inl AttributeError)"

text \<open>
  \<^verbatim>\<open>
      def current_text(self) -> str:
          if is_leaf(self.node):
              return f"\<questiondown>Tu personaje es **{self.node['guess']}**?"
          return self.node.get("q", "\<questiondown>...?")
  \<close>
  The text is the prompt built around the guess of a leaf (\<open>Prompt\<close>), or, at any other
  node, the value under \<open>q\<close> as it is, the string \<open>"\<questiondown>...?"\<close> when there
  is none (\<open>Plain\<close>). On a node that is not a dict, \<open>.get\<close> raises
  \<open>AttributeError\<close>.
\<close>

datatype 'a message = Prompt "'a val" | Plain "'a val"

definition current_text :: "'a heap \<Rightarrow> 'a GameState \<Rightarrow> error + 'a message" where
  "current_text h self =
     (if is_leaf h (node self) then
        (case node self of
           Dict a \<Rightarrow>
             (case dict_get (h ! a) (lit ''guess'') of
                Some g \<Rightarrow> Inr (Prompt g)
              | None \<Rightarrow> Inl KeyError)
         | _ \<Rightarrow> Inl TypeError)
      else
        (case node self of
           Dict a \<Rightarrow>
             Inr (Plain (case dict_get (h ! a) (lit ''q'') of
                           Some v \<Rightarrow> v
                         | None \<Rightarrow> Str ([0xBF] @ lit ''...?'')))
         | _ \<Rightarrow> Inl AttributeError))"

text \<open>
  \<^verbatim>\<open>
      def learn(self, true_name: str, new_question: str, answer_yes_for_new: bool):
          if not is_leaf(self.node):
              return
          old_guess = self.node["guess"]
          new_node = {
              "q": normalize_question(new_question),
              "yes": {"guess": true_name} if answer_yes_for_new else {"guess": old_guess},
              "no": {"guess": old_guess} if answer_yes_for_new else {"guess": true_name},
          }
          if not self.path:
              self.tree = new_node
              self.node = new_node
          else:
              parent, side = self.path[-1]
              parent[side] = new_node
              self.node = new_node
          save_tree(self.tree)
  \<close>
  The display of \<open>new_node\<close> creates the yes leaf, the no leaf and then the question node.
  \<open>parent[side] = new_node\<close> is an update of the parent object in the store.

  \<open>save_tree\<close> is called last, when the tree has been changed already: an exception that
  it raises leaves the changed tree in memory. So the result \<open>Inr\<close> has the store, the disk
  and the session after the call and, with them, the exception that \<open>save_tree\<close> raised, if
  any; \<open>Inl\<close> is an exception raised before the tree is touched.
\<close>

definition learn ::
  "'a heap \<Rightarrow> 'a disk \<Rightarrow> 'a GameState \<Rightarrow> str \<Rightarrow> str \<Rightarrow> bool \<Rightarrow>
     error + ('a heap \<times> 'a disk \<times> 'a GameState \<times> error option)" where
  "learn h dk self true_name new_question answer_yes_for_new =
     (if \<not> is_leaf h (node self) then Inr (h, dk, self, None)
      else
        case node self of
          Dict a \<Rightarrow>
            (case dict_get (h ! a) (lit ''guess'') of
               None \<Rightarrow> Inl KeyError
             | Some old_guess \<Rightarrow>
                 let q = normalize_question new_question;
                     (yes_node, h1) = alloc h [(lit ''guess'',
                        if answer_yes_for_new then Str true_name else old_guess)];
                     (no_node, h2) = alloc h1 [(lit ''guess'',
                        if answer_yes_for_new then old_guess else Str true_name)];
                     (new_node, h3) = alloc h2
                        [(lit ''q'', Str q), (lit ''yes'', yes_node), (lit ''no'', no_node)]
                 in if path self = [] then
                      (let self' = self\<lparr>tree := new_node, node := new_node\<rparr>;
                           (e, dk') = save_tree h3 (tree self') dk
                       in Inr (h3, dk', self', e))
                    else
                      (let (parent, side) = last (path self)
                       in case parent of
                            Dict p \<Rightarrow>
                              (let h4 = h3[p := dict_set (h3 ! p) side new_node];
                                   self' = self\<lparr>node := new_node\<rparr>;
                                   (e, dk') = save_tree h4 (tree self') dk
                               in Inr (h4, dk', self', e))
                          | _ \<Rightarrow> Inl TypeError))
        | _ \<Rightarrow> Inl TypeError)"

section \<open>The application: statistics, import, reset\<close>

text \<open>
  The application. Of the fields of \<open>App\<close> the model keeps the session \<open>state\<close> and the
  statistics \<open>stats\<close> (the field \<open>tree\<close> of \<open>App\<close> is read in the constructor only, and the
  rest are widgets), together with the store of objects and the disk. What the user types
  into the dialogs of \<open>learn_dialog\<close> (two \<open>askstring\<close>, which give \<open>None\<close> on Cancel, and
  one \<open>askyesno\<close>) is a parameter of \<open>on_button\<close>; message boxes and the redrawing of the
  window change nothing that is modelled.
  \<^verbatim>\<open>
  def on_button(self, which: str):
      if is_leaf(self.state.node):
          guess = self.state.node["guess"]
          if which == "yes":
              self.stats["played"] += 1
              self.stats["wins"] += 1
              save_stats(self.stats)
              ...
              self.new_game()
              return
          else:
              self.learn_dialog(guess)
              return
      self.state.answer(which)
      self.label.config(text=self.state.current_text())
      self._update_status()

  def learn_dialog(self, wrong_guess: str):
      true_name = simpledialog.askstring(...)
      if not true_name:
          return
      q = simpledialog.askstring(...)
      if not q:
          return
      ans = messagebox.askyesno(...)
      self.state.learn(true_name.strip(), q.strip(), ans)
      self.stats["played"] += 1
      self.stats["learned"] = self.stats.get("learned", 0) + 1
      save_tree(self.state.tree)
      save_stats(self.stats)
      ...
      self.new_game()

  def new_game(self):
      self.state = GameState(self.state.tree)
      self.label.config(text=self.state.current_text())
      ...
      self._update_status()
  \<close>
\<close>

record 'a App =
  heap :: "'a heap"
  disk :: "'a disk"
  state :: "'a GameState"
  stats :: "str \<rightharpoonup> int"

text \<open>
  The accuracy that \<open>_update_status\<close> shows is a Python \<open>float\<close>, an IEEE 754 binary64
  number, and each of the two operations of \<open>wins / played * 100\<close> rounds its exact
  result to the nearest such number, a tie going to the one with an even significand.
  \<open>binary64 x\<close> is that rounding of a real \<open>x\<close>: the numbers between \<open>2 ^ e\<close> and
  \<open>2 ^ (e + 1)\<close> are \<open>2 ^ (e - 52)\<close> apart, and below \<open>2 ^ - 1022\<close> the spacing stays
  \<open>2 ^ - 1074\<close>. A float is finite, with a sign and a magnitude (so that there are two
  zeros), or infinite. The quotient of two integers is rounded once from the exact
  quotient and raises \<open>OverflowError\<close> when the result is beyond the range of the floats;
  a product beyond the range is infinite.
\<close>

definition round_even :: "real \<Rightarrow> int" where
  "round_even y =
     (let f = \<lfloor>y\<rfloor>; r = y - of_int f
      in if r < 1 / 2 then f else if 1 / 2 < r then f + 1 else if even f then f else f + 1)"

definition binary64 :: "real \<Rightarrow> real" where
  "binary64 x =
     (if x = 0 then 0
      else let e = max \<lfloor>log 2 \<bar>x\<bar>\<rfloor> (- 1022); q = 2 powr (of_int e - 52)
           in of_int (round_even (x / q)) * q)"

datatype pyfloat = Finite bool real | Infinite bool

definition int_truediv :: "int \<Rightarrow> int \<Rightarrow> error + pyfloat" where
  "int_truediv a b =
     (if b = 0 then Inl ZeroDivisionError
      else let m = binary64 (\<bar>of_int a\<bar> / \<bar>of_int b\<bar>)
           in if 2 ^ 1024 \<le> m then Inl OverflowError
              else Inr (Finite ((a < 0) \<noteq> (b < 0)) m))"

definition float_mul_100 :: "pyfloat \<Rightarrow> pyfloat" where
  "float_mul_100 x =
     (case x of
        Finite s m \<Rightarrow> (let r = binary64 (m * 100) in if 2 ^ 1024 \<le> r then Infinite s else Finite s r)
      | Infinite s \<Rightarrow> Infinite s)"

text \<open>
  The numbers that \<open>_update_status\<close> shows.
  \<^verbatim>\<open>
  played = self.stats.get("played", 0)
  wins = self.stats.get("wins", 0)
  learned = self.stats.get("learned", 0)
  acc = (wins / played * 100) if played else 0.0
  \<close>
\<close>

definition update_status :: "(str \<rightharpoonup> int) \<Rightarrow> error + (int \<times> int \<times> int \<times> pyfloat)" where
  "update_status st =
     (let played = (case st (lit ''played'') of None \<Rightarrow> 0 | Some n \<Rightarrow> n);
          wins = (case st (lit ''wins'') of None \<Rightarrow> 0 | Some n \<Rightarrow> n);
          learned = (case st (lit ''learned'') of None \<Rightarrow> 0 | Some n \<Rightarrow> n)
      in if played \<noteq> 0 then
           (case int_truediv wins played of
              Inl e \<Rightarrow> Inl e
            | Inr x \<Rightarrow> Inr (played, wins, learned, float_mul_100 x))
         else Inr (played, wins, learned, Finite False 0))"

text \<open>
  \<open>new_game\<close> starts a session on the same tree and redraws the window, which shows the
  text of the root and the statistics.
\<close>

definition new_game :: "'a App \<Rightarrow> error + 'a App" where
  "new_game app =
     (let app1 = app\<lparr>state := GameState_init (tree (state app))\<rparr>
      in case current_text (heap app1) (state app1) of
           Inl e \<Rightarrow> Inl e
         | Inr t \<Rightarrow> (case update_status (stats app1) of Inl e \<Rightarrow> Inl e | Inr u \<Rightarrow> Inr app1))"

definition truthy :: "str option \<Rightarrow> bool" where
  "truthy s = (case s of None \<Rightarrow> False | Some t \<Rightarrow> t \<noteq> [])"

definition learn_dialog ::
  "'a App \<Rightarrow> 'a val \<Rightarrow> str option \<Rightarrow> str option \<Rightarrow> bool \<Rightarrow> error + 'a App" where
  "learn_dialog app wrong_guess true_name q ans =
     (if \<not> truthy true_name then Inr app
      else if \<not> truthy q then Inr app
      else
        case learn (heap app) (disk app) (state app) (strip (the true_name)) (strip (the q)) ans of
          Inl e \<Rightarrow> Inl e
        | Inr (h, dk, st, Some e) \<Rightarrow> Inl e
        | Inr (h, dk, st, None) \<Rightarrow>
            (case stats app (lit ''played'') of
               None \<Rightarrow> Inl KeyError
             | Some played \<Rightarrow>
                 let stats1 = (stats app)(lit ''played'' \<mapsto> played + 1);
                     stats2 = stats1(lit ''learned'' \<mapsto>
                       (case stats1 (lit ''learned'') of None \<Rightarrow> 0 | Some l \<Rightarrow> l) + 1)
                 in case save_tree h (tree st) dk of
                      (Some e, dk1) \<Rightarrow> Inl e
                    | (None, dk1) \<Rightarrow>
                        new_game \<lparr>heap = h, disk = save_stats stats2 dk1, state = st,
                          stats = stats2\<rparr>))"

definition on_button ::
  "'a App \<Rightarrow> str \<Rightarrow> str option \<Rightarrow> str option \<Rightarrow> bool \<Rightarrow> error + 'a App" where
  "on_button app which true_name q ans =
     (if is_leaf (heap app) (node (state app)) then
        (case node (state app) of
           Dict a \<Rightarrow>
             (case dict_get (heap app ! a) (lit ''guess'') of
                None \<Rightarrow> Inl KeyError
              | Some guess \<Rightarrow>
                  if which = lit ''yes'' then
                    (case stats app (lit ''played'') of
                       None \<Rightarrow> Inl KeyError
                     | Some played \<Rightarrow>
                         let stats1 = (stats app)(lit ''played'' \<mapsto> played + 1)
                         in case stats1 (lit ''wins'') of
                              None \<Rightarrow> Inl KeyError
                            | Some wins \<Rightarrow>
                                let stats2 = stats1(lit ''wins'' \<mapsto> wins + 1)
                                in new_game (app\<lparr>disk := save_stats stats2 (disk app),
                                     stats := stats2\<rparr>))
                  else learn_dialog app guess true_name q ans)
         | _ \<Rightarrow> Inl TypeError)
      else
        case answer (heap app) (state app) which of
          Inl e \<Rightarrow> Inl e
        | Inr (h, st) \<Rightarrow>
            (case current_text h st of
               Inl e \<Rightarrow> Inl e
             | Inr t \<Rightarrow>
                 (case update_status (stats app) of
                    Inl e \<Rightarrow> Inl e
                  | Inr u \<Rightarrow> Inr (app\<lparr>heap := h, state := st\<rparr>))))"

text \<open>
  \<open>import_tree\<close> catches every exception and shows it; the model returns the exception
  shown, if any, and the application after the call (when \<open>save_tree\<close> or \<open>new_game\<close>
  raises, the imported tree is the tree of the session already). The argument is what the
  file dialog, \<open>open\<close> and \<open>json.load\<close> give: no path, a file that cannot be opened, a
  file on which \<open>json.load\<close> raises, or the document that \<open>json.load\<close> returns.
  \<^verbatim>\<open>
  def import_tree(self):
      path = filedialog.askopenfilename(...)
      if not path: return
      try:
          with open(path, "r", encoding="utf-8") as f:
              new_tree = json.load(f)
          if not isinstance(new_tree, dict) or not ("q" in new_tree or "guess" in new_tree):
              raise ValueError(...)
          self.state.tree = new_tree
          save_tree(new_tree)
          self.new_game()
          messagebox.showinfo(...)
      except Exception as e:
          messagebox.showerror(...)

  def reset_default(self):
      ok = messagebox.askyesno(...)
      if not ok: return
      t = default_tree()
      save_tree(t)
      self.state.tree = t
      self.new_game()
  \<close>
\<close>

definition import_tree :: "'a App \<Rightarrow> 'a json file_state option \<Rightarrow> error option \<times> 'a App" where
  "import_tree app chosen =
     (case chosen of
        None \<Rightarrow> (None, app)
      | Some Missing \<Rightarrow> (Some OSError, app)
      | Some Unparsable \<Rightarrow> (Some JSONDecodeError, app)
      | Some (Holds d) \<Rightarrow>
          (let (new_tree, h1) = json_load d (heap app);
               app1 = app\<lparr>heap := h1\<rparr>
           in if \<not> (case new_tree of
                       Dict a \<Rightarrow> dict_has (h1 ! a) (lit ''q'') \<or> dict_has (h1 ! a) (lit ''guess'')
                     | _ \<Rightarrow> False)
              then (Some ValueError_not_a_tree, app1)
              else
                let app2 = app1\<lparr>state := (state app1)\<lparr>tree := new_tree\<rparr>\<rparr>
                in case save_tree h1 new_tree (disk app2) of
                     (Some e, dk) \<Rightarrow> (Some e, app2\<lparr>disk := dk\<rparr>)
                   | (None, dk) \<Rightarrow>
                       (case new_game (app2\<lparr>disk := dk\<rparr>) of
                          Inl e \<Rightarrow> (Some e, app2\<lparr>disk := dk, state := GameState_init new_tree\<rparr>)
                        | Inr app3 \<Rightarrow> (None, app3))))"

definition reset_default :: "'a App \<Rightarrow> bool \<Rightarrow> error + 'a App" where
  "reset_default app ok =
     (if \<not> ok then Inr app
      else
        let (t, h) = default_tree (heap app)
        in case save_tree h t (disk app) of
             (Some e, dk) \<Rightarrow> Inl e
           | (None, dk) \<Rightarrow>
               new_game (app\<lparr>heap := h, disk := dk, state := (state app)\<lparr>tree := t\<rparr>\<rparr>))"

text \<open>
  The constructor loads the tree and the statistics, starts a session and draws the window
  (\<open>_render\<close>), which shows the text of the root and the statistics.
\<close>

definition App_init :: "'a heap \<Rightarrow> 'a disk \<Rightarrow> error + 'a App" where
  "App_init h dk =
     (case load_tree h dk of
        Inl e \<Rightarrow> Inl e
      | Inr (t, h1, dk1) \<Rightarrow>
          (case load_stats dk1 of
             Inl e \<Rightarrow> Inl e
           | Inr (st, dk2) \<Rightarrow>
               (case current_text h1 (GameState_init t) of
                  Inl e \<Rightarrow> Inl e
                | Inr x \<Rightarrow>
                    (case update_status st of
                       Inl e \<Rightarrow> Inl e
                     | Inr u \<Rightarrow>
                         Inr \<lparr>heap = h1, disk = dk2, state = GameState_init t, stats = st\<rparr>))))"

text \<open>
  A run of the application is a sequence of button presses, each with the answers that the
  user would give to the dialogs. A press is a correct guess when the session is on a leaf
  and the button is \<open>yes\<close>; it is a learning event when the session is on a leaf, the
  button is not \<open>yes\<close> and both dialogs are filled in. \<open>run\<close> handles the presses in order
  and lists their outcomes; it stops at the first exception.
\<close>

datatype event = Button str "str option" "str option" bool

datatype outcome = Correct_guess | Learned | No_outcome

definition outcome_of :: "'a App \<Rightarrow> event \<Rightarrow> outcome" where
  "outcome_of app ev =
     (case ev of Button which true_name q ans \<Rightarrow>
        if is_leaf (heap app) (node (state app)) then
          (if which = lit ''yes'' then Correct_guess
           else if truthy true_name \<and> truthy q then Learned else No_outcome)
        else No_outcome)"

fun run :: "'a App \<Rightarrow> event list \<Rightarrow> error + ('a App \<times> outcome list)" where
  "run app [] = Inr (app, [])"
| "run app (Button which true_name q ans # evs) =
     (case on_button app which true_name q ans of
        Inl e \<Rightarrow> Inl e
      | Inr app1 \<Rightarrow>
          (case run app1 evs of
             Inl e \<Rightarrow> Inl e
           | Inr (app2, os) \<Rightarrow> Inr (app2, outcome_of app (Button which true_name q ans) # os)))"

section \<open>Auxiliary notions for the properties\<close>

text \<open>
  The addresses that the walk of \<open>dump\<close> visits, in order, with repetitions: the tree at a
  value is a proper tree, with no object reached twice, when this list is distinct.
\<close>

fun addrs :: "nat \<Rightarrow> 'a heap \<Rightarrow> 'a val \<Rightarrow> addr list"
  and addrs_items :: "nat \<Rightarrow> 'a heap \<Rightarrow> 'a dict \<Rightarrow> addr list" where
  "addrs n h (Other x) = []"
| "addrs n h (Str s) = []"
| "addrs 0 h (Dict a) = [a]"
| "addrs (Suc n) h (Dict a) = a # addrs_items n h (h ! a)"
| "addrs_items n h [] = []"
| "addrs_items n h ((k, v) # d) = addrs n h v @ addrs_items n h d"

text \<open>
  A small store, application and run for the examples.
\<close>

definition h_example :: "unit heap" where
  "h_example =
     [[(lit ''guess'', Str (lit ''Hornet''))],
      [(lit ''guess'', Str (lit ''Nosk''))],
      [(lit ''q'', Str (lit ''Usa una aguja?'')), (lit ''yes'', Dict 0), (lit ''no'', Dict 1)]]"

definition app_example :: "unit App" where
  "app_example =
     \<lparr>heap = h_example,
      disk = \<lparr>data_file = Missing, stats_file = Missing, dump_limit = 1000, load_limit = 1000\<rparr>,
      state = GameState_init (Dict 2),
      stats = [lit ''played'' \<mapsto> 0, lit ''wins'' \<mapsto> 0, lit ''learned'' \<mapsto> 0]\<rparr>"

definition events_example :: "event list" where
  "events_example =
     [Button (lit ''yes'') None None False,
      Button (lit ''yes'') None None False,
      Button (lit ''no'') None None False,
      Button (lit ''no'') (Some (lit ''Zote'')) (Some (lit '' Presume preceptos'')) True]"

text \<open>
  A document in which no object repeats a key. Every document that \<open>dump\<close> produces from
  Python dicts is of this kind.
\<close>

fun distinct_keys :: "'a json \<Rightarrow> bool"
  and distinct_keys_items :: "(str \<times> 'a json) list \<Rightarrow> bool" where
  "distinct_keys (JOther x) = True"
| "distinct_keys (JStr s) = True"
| "distinct_keys (JObj kvs) = (distinct (map fst kvs) \<and> distinct_keys_items kvs)"
| "distinct_keys_items [] = True"
| "distinct_keys_items ((k, j) # kvs) = (distinct_keys j \<and> distinct_keys_items kvs)"

text \<open>
  The invariant of the tree as the specification gives it, read on the objects of the
  store: every node is a dict object, and it is either a guess node, with the key \<open>guess\<close>
  only and a string under it, or a question node, with exactly the keys \<open>q\<close>, \<open>yes\<close>
  and \<open>no\<close>, a non-empty text ending in a question mark under \<open>q\<close> and well-formed
  nodes under \<open>yes\<close> and \<open>no\<close>. The order of the keys is free. The recursion has one
  unit of fuel per level and \<open>wf_tree\<close> gives it the number of objects of the store, which
  no tree in the store exceeds in depth.
\<close>

fun wf_at :: "nat \<Rightarrow> 'a heap \<Rightarrow> 'a val \<Rightarrow> bool" where
  "wf_at n h (Other x) = False"
| "wf_at n h (Str s) = False"
| "wf_at 0 h (Dict a) = False"
| "wf_at (Suc n) h (Dict a) =
     (a < length h \<and> distinct (map fst (h ! a)) \<and>
      (if dict_has (h ! a) (lit ''guess'') then
         fst ` set (h ! a) = {lit ''guess''}
         \<and> (case dict_get (h ! a) (lit ''guess'') of Some (Str name) \<Rightarrow> True | _ \<Rightarrow> False)
       else
         fst ` set (h ! a) = {lit ''q'', lit ''yes'', lit ''no''}
         \<and> (case dict_get (h ! a) (lit ''q'') of
               Some (Str s) \<Rightarrow> s \<noteq> [] \<and> endswith s (lit ''?'')
             | _ \<Rightarrow> False)
         \<and> (case dict_get (h ! a) (lit ''yes'') of Some y \<Rightarrow> wf_at n h y | None \<Rightarrow> False)
         \<and> (case dict_get (h ! a) (lit ''no'') of Some c \<Rightarrow> wf_at n h c | None \<Rightarrow> False)))"

definition wf_tree :: "'a heap \<Rightarrow> 'a val \<Rightarrow> bool" where
  "wf_tree h t = wf_at (length h) h t"

text \<open>
  Structural equality of a value of one store and a value of another, which is Python's
  \<open>==\<close>: strings and other values are equal when they are the same, two dicts when they
  have the same keys and equal values under each key, whatever the order of the keys and
  whichever objects they are. The fuel is as above.
\<close>

fun eq_at :: "nat \<Rightarrow> 'a heap \<Rightarrow> 'a val \<Rightarrow> 'a heap \<Rightarrow> 'a val \<Rightarrow> bool" where
  "eq_at n h (Other x) h' v' = (v' = Other x)"
| "eq_at n h (Str s) h' v' = (v' = Str s)"
| "eq_at 0 h (Dict a) h' v' = False"
| "eq_at (Suc n) h (Dict a) h' v' =
     (case v' of
        Dict b \<Rightarrow>
          a < length h \<and> b < length h' \<and> fst ` set (h ! a) = fst ` set (h' ! b)
          \<and> (\<forall>k \<in> fst ` set (h ! a).
                case (dict_get (h ! a) k, dict_get (h' ! b) k) of
                  (Some x, Some y) \<Rightarrow> eq_at n h x h' y
                | _ \<Rightarrow> False)
      | _ \<Rightarrow> False)"

definition struct_eq :: "'a heap \<Rightarrow> 'a val \<Rightarrow> 'a heap \<Rightarrow> 'a val \<Rightarrow> bool" where
  "struct_eq h t h' t' = eq_at (length h) h t h' t'"

definition disk_example :: "unit disk" where
  "disk_example = \<lparr>data_file = Missing, stats_file = Missing, dump_limit = 1000, load_limit = 1000\<rparr>"

text \<open>
  A tree of one leaf whose name is the lone surrogate \<open>U+D800\<close>, which is a Python
  string (\<open>"\ud800"\<close>) and which \<open>json.load\<close> reads from the escape \<open>\ud800\<close>.
\<close>

definition h_surrogate :: "unit heap" where
  "h_surrogate = [[(lit ''guess'', Str [0xD800])]]"

text \<open>
  \<open>walk h v ps\<close> follows the path \<open>ps\<close> of (node, branch) pairs from the value \<open>v\<close>: each
  recorded node must be the node reached so far, a dict object of the store, and must hold
  the recorded branch. The result is the node at the end. For a session,
  \<open>walk h (tree s) (path s) = Some (node s)\<close> says that the path records how the current
  node was reached from the root.

  \<open>descend\<close> is the subtree of a document at a position (a list of branches), and
  \<open>replace_at\<close> replaces the subtree at a position; like the lookup in a dict, both take the
  first entry with the key.
\<close>

fun walk :: "'a heap \<Rightarrow> 'a val \<Rightarrow> ('a val \<times> str) list \<Rightarrow> 'a val option" where
  "walk h v [] = Some v"
| "walk h v ((u, b) # ps) =
     (if u = v then
        (case v of
           Dict a \<Rightarrow>
             (if a < length h then
                (case dict_get (h ! a) b of Some c \<Rightarrow> walk h c ps | None \<Rightarrow> None)
              else None)
         | _ \<Rightarrow> None)
      else None)"

fun descend :: "'a json \<Rightarrow> str list \<Rightarrow> 'a json option" where
  "descend d [] = Some d"
| "descend (JObj kvs) (b # bs) =
     (case map_of kvs b of Some c \<Rightarrow> descend c bs | None \<Rightarrow> None)"
| "descend (JOther x) (b # bs) = None"
| "descend (JStr s) (b # bs) = None"

fun replace_at :: "'a json \<Rightarrow> str list \<Rightarrow> 'a json \<Rightarrow> 'a json"
  and replace_in :: "(str \<times> 'a json) list \<Rightarrow> str \<Rightarrow> str list \<Rightarrow> 'a json \<Rightarrow> (str \<times> 'a json) list" where
  "replace_at d [] new = new"
| "replace_at (JObj kvs) (b # bs) new = JObj (replace_in kvs b bs new)"
| "replace_at (JOther x) (b # bs) new = JOther x"
| "replace_at (JStr s) (b # bs) new = JStr s"
| "replace_in [] b bs new = []"
| "replace_in ((k, c) # kvs) b bs new =
     (if k = b then (k, replace_at c bs new) # kvs else (k, c) # replace_in kvs b bs new)"

text \<open>
  The document of the node that learning inserts: the normalised question, and the leaves
  for the true name and the old guess under \<open>yes\<close> and \<open>no\<close> when the flag is true, the
  other way round when it is false.
\<close>

definition learned_doc :: "str \<Rightarrow> str \<Rightarrow> str \<Rightarrow> bool \<Rightarrow> 'a json" where
  "learned_doc old_guess true_name new_question flag =
     JObj [(lit ''q'', JStr (normalize_question new_question)),
           (lit ''yes'', JObj [(lit ''guess'', JStr (if flag then true_name else old_guess))]),
           (lit ''no'', JObj [(lit ''guess'', JStr (if flag then old_guess else true_name))])]"

definition doc_example :: "unit json" where
  "doc_example =
     JObj [(lit ''q'', JStr (lit ''Usa una aguja?'')),
           (lit ''yes'', JObj [(lit ''guess'', JStr (lit ''Hornet''))]),
           (lit ''no'', JObj [(lit ''guess'', JStr (lit ''Nosk''))])]"

definition session_example :: "unit GameState" where
  "session_example = \<lparr>tree = Dict 2, path = [(Dict 2, lit ''no'')], node = Dict 1\<rparr>"

text \<open>
  \<open>answers\<close> calls \<open>answer\<close> for each answer of a list in turn. \<open>follow\<close> is the same
  journey on the document of the tree: an answer at a leaf changes nothing, an answer at a
  question moves to the child under \<open>yes\<close> when the answer is \<open>yes\<close> and under \<open>no\<close>
  otherwise; it is undefined where the child is missing.
\<close>

fun answers :: "'a heap \<Rightarrow> 'a GameState \<Rightarrow> str list \<Rightarrow> error + ('a heap \<times> 'a GameState)" where
  "answers h self [] = Inr (h, self)"
| "answers h self (ans # rest) =
     (case answer h self ans of
        Inl e \<Rightarrow> Inl e
      | Inr (h', self') \<Rightarrow> answers h' self' rest)"

fun follow :: "'a json \<Rightarrow> str list \<Rightarrow> 'a json option" where
  "follow d [] = Some d"
| "follow (JObj kvs) (ans # rest) =
     (if lit ''guess'' \<in> fst ` set kvs then follow (JObj kvs) rest
      else case map_of kvs (if ans = lit ''yes'' then lit ''yes'' else lit ''no'') of
             Some c \<Rightarrow> follow c rest
           | None \<Rightarrow> None)"
| "follow (JOther x) (ans # rest) = None"
| "follow (JStr s) (ans # rest) = None"

text \<open>
  \<^verbatim>\<open>
  def save_tree(tree):
      with open(DATA_FILE, "w", encoding="utf-8") as f:
          json.dump(tree, f, ensure_ascii=False, indent=2)
  \<close>
  The states the disk goes through while \<open>save_tree\<close> runs, in order. Opening the file in
  mode \<open>"w"\<close> creates it or truncates it to length zero, so after the \<open>open\<close> the file
  exists and cannot be parsed; the document is complete in the file only once \<open>json.dump\<close>
  has written all of it and the file is closed, and it never is when \<open>json.dump\<close> raises.
  The function writes to \<open>DATA_FILE\<close> itself: there is no temporary file and no rename. A
  process that stops during \<open>save_tree\<close> leaves one of these states behind.
\<close>

definition save_tree_steps :: "'a heap \<Rightarrow> 'a val \<Rightarrow> 'a disk \<Rightarrow> 'a disk list" where
  "save_tree_steps h t dk =
     (let opened = dk\<lparr>data_file := Unparsable\<rparr>
      in case json_dump h t of
           None \<Rightarrow> [opened]
         | Some d \<Rightarrow>
             (case dump_error (dump_limit dk) d of
                Some e \<Rightarrow> [opened]
              | None \<Rightarrow> [opened, opened\<lparr>data_file := Holds d\<rparr>]))"

text \<open>
  Atomicity of the save with respect to a crash, as the specification words it: in every
  state that the save goes through, the file holds what it held before the save or the
  complete new document, never something truncated or partial.
\<close>

definition crash_safe :: "'a heap \<Rightarrow> 'a val \<Rightarrow> 'a disk \<Rightarrow> bool" where
  "crash_safe h t dk =
     list_all (\<lambda>s. data_file s = data_file dk \<or> Some (data_file s) = map_option Holds (json_dump h t))
       (save_tree_steps h t dk)"

definition disk_saved :: "unit disk" where
  "disk_saved = \<lparr>data_file = Holds doc_example, stats_file = Missing, dump_limit = 1000, load_limit = 1000\<rparr>"

section \<open>Question normalisation\<close>

lemma lit_qmark: "lit ''?'' = [63]"
  by (simp add: lit_def)

lemma endswith_qmark: "endswith q [63] \<longleftrightarrow> q \<noteq> [] \<and> last q = 63"
proof (cases q rule: rev_cases)
  case Nil
  then show ?thesis by (simp add: endswith_def lit_def)
next
  case (snoc ys y)
  then show ?thesis by (auto simp: endswith_def lit_def)
qed

lemma strip_split:
  "q = takeWhile isspace q @ strip q @ rev (takeWhile isspace (rev (dropWhile isspace q)))"
proof -
  let ?t = "dropWhile isspace q"
  have "rev (takeWhile isspace (rev ?t) @ dropWhile isspace (rev ?t)) =
      rev (dropWhile isspace (rev ?t)) @ rev (takeWhile isspace (rev ?t))"
    by (rule rev_append)
  then have "rev (rev ?t) = rev (dropWhile isspace (rev ?t)) @ rev (takeWhile isspace (rev ?t))"
    by (simp only: takeWhile_dropWhile_id)
  then have "?t = strip q @ rev (takeWhile isspace (rev ?t))"
    by (simp only: strip_def rev_rev_ident)
  moreover have "q = takeWhile isspace q @ ?t"
    by simp
  ultimately show ?thesis by simp
qed

lemma strip_last: "strip q \<noteq> [] \<Longrightarrow> \<not> isspace (last (strip q))"
  unfolding strip_def by (simp add: last_rev hd_dropWhile)

lemma strip_hd: 
  assumes "strip q \<noteq> []" shows "\<not> isspace (hd (strip q))"
proof -
  let ?t = "dropWhile isspace q"
  have ne: "?t \<noteq> []"
  proof
    assume "?t = []"
    then have "strip q = []" by (metis strip_def dropWhile.simps(1) rev.simps(1))
    with assms show False by simp
  qed
  then have h: "\<not> isspace (hd ?t)" by (simp add: hd_dropWhile)
  obtain r where "?t = strip q @ r" using strip_split [of q]
    by (metis same_append_eq takeWhile_dropWhile_id)
  with assms have "hd ?t = hd (strip q)" by (metis hd_append2)
  with h show ?thesis by simp
qed

lemma strip_fixed:
  assumes "q \<noteq> []" "\<not> isspace (hd q)" "\<not> isspace (last q)"
  shows "strip q = q"
proof -
  from assms have a: "dropWhile isspace q = q" by (cases q) auto
  from assms have "rev q \<noteq> []" "\<not> isspace (hd (rev q))" by (simp_all add: hd_rev)
  then have "dropWhile isspace (rev q) = rev q" by (cases "rev q") auto
  with a show ?thesis by (simp add: strip_def)
qed

lemma qmark_not_space: "\<not> isspace 63"
  by (simp add: isspace_def)

lemma normalize_question_fixed: "strip (normalize_question q) = normalize_question q"
proof (cases "strip q = []")
  case True
  then have "normalize_question q = [63]"
    by (simp add: normalize_question_def endswith_def lit_def)
  moreover have "strip [63] = [63]"
    by (simp add: strip_def qmark_not_space)
  ultimately show ?thesis by simp
next
  case False
  let ?n = "normalize_question q"
  have ne: "?n \<noteq> []" using False by (simp add: normalize_question_def Let_def)
  have "hd ?n = hd (strip q)" using False by (simp add: normalize_question_def Let_def)
  then have h: "\<not> isspace (hd ?n)" using strip_hd [OF False] by simp
  have "last ?n = 63" by (simp add: normalize_question_def Let_def endswith_qmark lit_qmark)
  then have "\<not> isspace (last ?n)" by (simp add: qmark_not_space)
  with ne h show ?thesis by (rule strip_fixed)
qed

lemma normalize_question_ends: "endswith (normalize_question q) (lit ''?'')"
  by (simp add: normalize_question_def Let_def endswith_qmark lit_qmark)

text \<open>
  Claim C5. \<open>normalize_question\<close> strips the surrounding whitespace (the input is the
  stripped text between two runs of whitespace, and the stripped text neither starts nor
  ends with whitespace), and appends a question mark exactly when the stripped text does not
  already end with one. On \<open>"abc"\<close> it gives \<open>"abc?"\<close>, on \<open>" abc? "\<close> it gives
  \<open>"abc?"\<close>, and applying it twice gives the same as applying it once.
\<close>

theorem normalize_question_spec:
  "(\<exists>l r. s = l @ strip s @ r \<and> (\<forall>c\<in>set l. isspace c) \<and> (\<forall>c\<in>set r. isspace c))
   \<and> (strip s \<noteq> [] \<longrightarrow> \<not> isspace (hd (strip s)) \<and> \<not> isspace (last (strip s)))
   \<and> normalize_question s =
       (if endswith (strip s) (lit ''?'') then strip s else strip s @ lit ''?'')
   \<and> normalize_question (lit ''abc'') = lit ''abc?''
   \<and> normalize_question (lit '' abc? '') = lit ''abc?''
   \<and> normalize_question (normalize_question s) = normalize_question s"
proof -
  have "\<forall>c\<in>set (takeWhile isspace s). isspace c"
    by (meson set_takeWhileD)
  moreover have "\<forall>c\<in>set (rev (takeWhile isspace (rev (dropWhile isspace s)))). isspace c"
    by (metis set_rev set_takeWhileD)
  ultimately have 1: "\<exists>l r. s = l @ strip s @ r \<and> (\<forall>c\<in>set l. isspace c) \<and> (\<forall>c\<in>set r. isspace c)"
    using strip_split [of s] by blast
  have 2: "strip s \<noteq> [] \<longrightarrow> \<not> isspace (hd (strip s)) \<and> \<not> isspace (last (strip s))"
    using strip_hd strip_last by blast
  have 3: "normalize_question s =
       (if endswith (strip s) (lit ''?'') then strip s else strip s @ lit ''?'')"
    by (simp add: normalize_question_def Let_def)
  have 4: "normalize_question (lit ''abc'') = lit ''abc?''"
    by (simp add: normalize_question_def strip_def endswith_def lit_def isspace_def)
  have 5: "normalize_question (lit '' abc? '') = lit ''abc?''"
    by (simp add: normalize_question_def strip_def endswith_def lit_def isspace_def)
  have "normalize_question (normalize_question s) =
       (if endswith (strip (normalize_question s)) (lit ''?'') then strip (normalize_question s)
        else strip (normalize_question s) @ lit ''?'')"
    by (simp add: normalize_question_def [of "normalize_question s"] Let_def)
  then have 6: "normalize_question (normalize_question s) = normalize_question s"
    by (simp only: normalize_question_fixed normalize_question_ends if_True)
  from 1 2 3 4 5 6 show ?thesis by blast
qed

theorem normalize_question_spec_witness:
  "strip (lit '' ab ? '') = lit ''ab ?''
   \<and> normalize_question (lit '' ab ? '') = lit ''ab ?''
   \<and> normalize_question (lit ''  who'') = lit ''who?''
   \<and> normalize_question (normalize_question (lit ''  who'')) = lit ''who?''"
  using normalize_question_spec [of "lit ''  who''"]
  by (simp add: normalize_question_def strip_def endswith_def lit_def isspace_def)

section \<open>Literals\<close>

lemma lit_eq_iff: "lit a = lit b \<longleftrightarrow> a = b"
  unfolding lit_def by (rule inj_map_eq_map) (simp add: inj_on_def)

section \<open>Serialisation and the store\<close>

lemma dump_mono:
  "dump n h v = Some j \<Longrightarrow> dump (n + m) h v = Some j \<and> addrs (n + m) h v = addrs n h v"
  "dump_items n h d = Some js \<Longrightarrow>
     dump_items (n + m) h d = Some js \<and> addrs_items (n + m) h d = addrs_items n h d"
proof (induction n h v and n h d arbitrary: j and js rule: dump_dump_items.induct)
  case (4 n h a)
  then show ?case by (auto split: if_splits)
next
  case (6 n h k v d)
  then show ?case by (auto split: option.splits)
qed simp_all

lemma dump_valid:
  "dump n h v = Some j \<Longrightarrow> \<forall>a \<in> set (addrs n h v). a < length h"
  "dump_items n h d = Some js \<Longrightarrow> \<forall>a \<in> set (addrs_items n h d). a < length h"
proof (induction n h v and n h d arbitrary: j and js rule: dump_dump_items.induct)
  case (4 n h a)
  then show ?case by (auto split: if_splits)
next
  case (6 n h k v d)
  then show ?case by (auto split: option.splits)
qed simp_all

lemma dump_frame:
  "dump n h v = Some j \<Longrightarrow> \<forall>a \<in> set (addrs n h v). a < length h' \<and> h' ! a = h ! a \<Longrightarrow>
     dump n h' v = Some j \<and> addrs n h' v = addrs n h v"
  "dump_items n h d = Some js \<Longrightarrow> \<forall>a \<in> set (addrs_items n h d). a < length h' \<and> h' ! a = h ! a \<Longrightarrow>
     dump_items n h' d = Some js \<and> addrs_items n h' d = addrs_items n h d"
proof (induction n h v and n h d arbitrary: j and js rule: dump_dump_items.induct)
  case (4 n h a)
  then show ?case by (auto split: if_splits)
next
  case (6 n h k v d)
  then show ?case by (auto split: option.splits)
qed simp_all

lemma dict_set_keys: "fst ` set (dict_set d k v) = insert k (fst ` set d)"
proof (induction d)
  case Nil
  show ?case by simp
next
  case (Cons x d)
  obtain k' v' where x: "x = (k', v')" by (cases x)
  show ?case
  proof (cases "k' = k")
    case True
    with x show ?thesis by simp
  next
    case False
    with x Cons.IH show ?thesis by auto
  qed
qed

lemma json_load_ext:
  "json_load j h = (v, h') \<Longrightarrow> \<exists>e. h' = h @ e"
  "json_load_items kvs d h = (d', h') \<Longrightarrow> \<exists>e. h' = h @ e"
proof (induction j h and kvs d h arbitrary: v h' and d' h' rule: json_load_json_load_items.induct)
  case (1 x h)
  then show ?case by simp
next
  case (2 s h)
  then show ?case by simp
next
  case (3 kvs h)
  obtain d1 h1 where l: "json_load_items kvs [] h = (d1, h1)" by (meson surj_pair)
  from 3(1) [OF l] obtain e where e: "h1 = h @ e" ..
  from 3(2) l have "h' = h1 @ [d1]" by (simp add: alloc_def)
  with e have "h' = h @ (e @ [d1])" by simp
  then show ?case ..
next
  case (4 d h)
  then show ?case by simp
next
  case (5 k j kvs d h)
  obtain v1 h1 where l: "json_load j h = (v1, h1)" by (meson surj_pair)
  from 5(1) [OF l] obtain e1 where e1: "h1 = h @ e1" ..
  from 5(3) l have r: "json_load_items kvs (dict_set d k v1) h1 = (d', h')" by simp
  from 5(2) [OF l [symmetric] refl r] obtain e2 where "h' = h1 @ e2" ..
  with e1 have "h' = h @ (e1 @ e2)" by simp
  then show ?case ..
qed

lemma json_load_items_keys:
  "json_load_items kvs d h = (d', h') \<Longrightarrow> fst ` set d' = fst ` set d \<union> fst ` set kvs"
proof (induction kvs arbitrary: d h)
  case Nil
  then show ?case by simp
next
  case (Cons kj kvs)
  obtain k j where kj: "kj = (k, j)" by (cases kj)
  obtain v1 h1 where l: "json_load j h = (v1, h1)" by (meson surj_pair)
  with Cons.prems kj have "json_load_items kvs (dict_set d k v1) h1 = (d', h')" by simp
  from Cons.IH [OF this] show ?case by (simp add: dict_set_keys kj)
qed

lemma json_load_obj:
  assumes "json_load (JObj kvs) h = (v, h')"
  shows "\<exists>a. v = Dict a \<and> a < length h' \<and> fst ` set (h' ! a) = fst ` set kvs"
proof -
  obtain d1 h1 where l: "json_load_items kvs [] h = (d1, h1)" by (meson surj_pair)
  with assms have "v = Dict (length h1)" "h' = h1 @ [d1]" by (simp_all add: alloc_def)
  moreover from json_load_items_keys [OF l] have "fst ` set d1 = fst ` set kvs" by simp
  ultimately show ?thesis by simp
qed

lemma dump_error_None_iff:
  "dump_error n (d :: 'a json) = None \<longleftrightarrow> utf8_doc d \<and> doc_depth d \<le> n"
  "dump_error_items n (kvs :: (str \<times> 'a json) list) = None
     \<longleftrightarrow> utf8_items kvs \<and> depth_items kvs \<le> n"
proof (induction n d and n kvs rule: dump_error_dump_error_items.induct)
  case (6 n k j kvs)
  then show ?case by (auto split: option.splits)
qed simp_all

lemma dump_error_ok: "utf8_doc d \<Longrightarrow> doc_depth d \<le> n \<Longrightarrow> dump_error n d = None"
  by (simp add: dump_error_None_iff)

text \<open>
  The two ways a save can end when the tree is not circular.
\<close>

lemma save_tree_dump:
  assumes "json_dump h t = Some d"
  shows "save_tree h t dk =
     (if utf8_doc d \<and> doc_depth d \<le> dump_limit dk then (None, dk\<lparr>data_file := Holds d\<rparr>)
      else (dump_error (dump_limit dk) d, dk\<lparr>data_file := Unparsable\<rparr>))"
    and "\<not> (utf8_doc d \<and> doc_depth d \<le> dump_limit dk) \<Longrightarrow> dump_error (dump_limit dk) d \<noteq> None"
  using assms dump_error_None_iff(1) [of "dump_limit dk" d]
  by (auto simp: save_tree_def split: option.splits)

section \<open>The game session\<close>

text \<open>
  Claim C9. From every session state, \<open>restart\<close> empties the traversal path and puts the
  current node back on the root of the tree; the tree field is the same as before. The
  function does not take the object store, so no object of the tree is touched.
\<close>

theorem restart_spec:
  "path (restart self) = [] \<and> node (restart self) = tree self \<and> tree (restart self) = tree self"
  by (simp add: restart_def)

text \<open>
  Claim C4. When the current node is a leaf (Guessing), \<open>answer\<close> returns the store and
  the session as they were: path, current node and tree are unchanged. When the current node
  is a dict object that is not a leaf (Asking) and holds a child under the chosen branch,
  \<open>answer\<close> with choice \<open>"yes"\<close> or \<open>"no"\<close> appends the pair (current node, choice) to the
  path and moves the current node to that child; the store and the tree field are unchanged.
\<close>

theorem answer_spec:
  "(is_leaf h (node self) \<longrightarrow> answer h self c = Inr (h, self))
   \<and> (\<not> is_leaf h (node self) \<and> node self = Dict a \<and> (c = lit ''yes'' \<or> c = lit ''no'')
        \<and> dict_get (h ! a) c = Some child \<longrightarrow>
      answer h self c = Inr (h, self\<lparr>path := path self @ [(node self, c)], node := child\<rparr>)
      \<and> tree (self\<lparr>path := path self @ [(node self, c)], node := child\<rparr>) = tree self)"
  by (auto simp: answer_def Let_def)

theorem answer_spec_witness:
  "is_leaf h_example (Dict 0)
   \<and> answer h_example \<lparr>tree = Dict 2, path = [(Dict 2, lit ''yes'')], node = Dict 0\<rparr> (lit ''no'')
       = Inr (h_example, \<lparr>tree = Dict 2, path = [(Dict 2, lit ''yes'')], node = Dict 0\<rparr>)
   \<and> \<not> is_leaf h_example (Dict 2)
   \<and> answer h_example (GameState_init (Dict 2)) (lit ''no'')
       = Inr (h_example, \<lparr>tree = Dict 2, path = [(Dict 2, lit ''no'')], node = Dict 1\<rparr>)"
  using answer_spec [of h_example "\<lparr>tree = Dict 2, path = [(Dict 2, lit ''yes'')], node = Dict 0\<rparr>"
      "lit ''no''" 0 "Dict 0"]
    answer_spec [of h_example "GameState_init (Dict 2)" "lit ''no''" 2 "Dict 1"]
  by (simp add: answer_def Let_def h_example_def is_leaf_def dict_has_def dict_get_def GameState_init_def lit_eq_iff)

text \<open>
  Claim C10. Every choice string other than \<open>"yes"\<close> is treated like \<open>"no"\<close>: \<open>answer\<close>
  gives the same result as with \<open>"no"\<close>, and in the Asking state it records
  (current node, \<open>"no"\<close>) in the path and moves to the child under \<open>"no"\<close>.
\<close>

theorem answer_other_choice:
  "c \<noteq> lit ''yes'' \<Longrightarrow>
     answer h self c = answer h self (lit ''no'')
     \<and> (\<not> is_leaf h (node self) \<and> node self = Dict a \<and> dict_get (h ! a) (lit ''no'') = Some child \<longrightarrow>
          answer h self c
            = Inr (h, self\<lparr>path := path self @ [(node self, lit ''no'')], node := child\<rparr>))"
  by (auto simp: answer_def Let_def lit_eq_iff)

theorem answer_other_choice_witness:
  "lit ''maybe'' \<noteq> lit ''yes''
   \<and> answer h_example (GameState_init (Dict 2)) (lit ''maybe'')
       = answer h_example (GameState_init (Dict 2)) (lit ''no'')
   \<and> answer h_example (GameState_init (Dict 2)) (lit ''maybe'')
       = Inr (h_example, \<lparr>tree = Dict 2, path = [(Dict 2, lit ''no'')], node = Dict 1\<rparr>)"
  using answer_other_choice [of "lit ''maybe''" h_example "GameState_init (Dict 2)" 2 "Dict 1"]
  by (simp add: answer_def Let_def h_example_def is_leaf_def dict_has_def dict_get_def GameState_init_def lit_eq_iff)

section \<open>Import of a knowledge file\<close>

lemma json_dump_ext:
  assumes "json_dump h v = Some j"
  shows "json_dump (h @ e) v = Some j"
proof -
  from assms have d: "dump (length h) h v = Some j" by (simp add: json_dump_def)
  then have "\<forall>a \<in> set (addrs (length h) h v). a < length h" by (rule dump_valid)
  then have "\<forall>a \<in> set (addrs (length h) h v). a < length (h @ e) \<and> (h @ e) ! a = h ! a"
    by (auto simp: nth_append)
  with d have "dump (length h) (h @ e) v = Some j" using dump_frame(1) by blast
  then have "dump (length h + length e) (h @ e) v = Some j" using dump_mono(1) by blast
  then show ?thesis by (simp add: json_dump_def)
qed

lemma import_tree_rejects_aux:
  assumes "json_load d h = (v, h1)"
    and "case d of JObj kvs \<Rightarrow> lit ''q'' \<notin> fst ` set kvs \<and> lit ''guess'' \<notin> fst ` set kvs | _ \<Rightarrow> True"
  shows "\<not> (case v of Dict a \<Rightarrow> dict_has (h1 ! a) (lit ''q'') \<or> dict_has (h1 ! a) (lit ''guess'')
              | _ \<Rightarrow> False)"
proof (cases d)
  case (JObj kvs)
  with assms(1) obtain a where "v = Dict a" "fst ` set (h1 ! a) = fst ` set kvs"
    using json_load_obj by blast
  with assms(2) JObj show ?thesis by (simp add: dict_has_def)
qed (use assms(1) in auto)

text \<open>
  Claim C7. When the imported document is not a JSON object, or is an object whose root has
  neither the key \<open>q\<close> nor the key \<open>guess\<close>, \<open>import_tree\<close> ends in the error dialog with
  the \<open>ValueError\<close> of the format check, and the session (tree, path, current node), the
  files and the statistics are as before: the store is only extended by the objects that
  \<open>json.load\<close> built, every object that existed keeps its content, and the active tree
  serialises to the same document as before.
\<close>

theorem import_tree_rejects:
  assumes "case d of JObj kvs \<Rightarrow> lit ''q'' \<notin> fst ` set kvs \<and> lit ''guess'' \<notin> fst ` set kvs
           | _ \<Rightarrow> True"
  shows "\<exists>app'. import_tree app (Some (Holds d)) = (Some ValueError_not_a_tree, app')
           \<and> state app' = state app \<and> disk app' = disk app \<and> stats app' = stats app
           \<and> (\<exists>e. heap app' = heap app @ e)
           \<and> (\<forall>j. json_dump (heap app) (tree (state app)) = Some j
                 \<longrightarrow> json_dump (heap app') (tree (state app')) = Some j)"
proof -
  obtain v h1 where l: "json_load d (heap app) = (v, h1)" by (meson surj_pair)
  from json_load_ext(1) [OF l] obtain e where e: "h1 = heap app @ e" ..
  from import_tree_rejects_aux [OF l assms]
  have r: "import_tree app (Some (Holds d)) = (Some ValueError_not_a_tree, app\<lparr>heap := h1\<rparr>)"
    using l by (simp add: import_tree_def)
  have "\<forall>j. json_dump (heap app) (tree (state app)) = Some j
          \<longrightarrow> json_dump h1 (tree (state app)) = Some j"
    using e json_dump_ext by blast
  with r e show ?thesis by simp
qed

theorem import_tree_rejects_witness:
  "fst (import_tree app_example (Some (Holds (JObj [(lit ''name'', JStr (lit ''Hornet''))]))))
     = Some ValueError_not_a_tree
   \<and> state (snd (import_tree app_example (Some (Holds (JObj [(lit ''name'', JStr (lit ''Hornet''))])))))
     = state app_example
   \<and> json_dump (heap (snd (import_tree app_example
          (Some (Holds (JObj [(lit ''name'', JStr (lit ''Hornet''))])))))) (Dict 2)
     = json_dump h_example (Dict 2)"
  using import_tree_rejects [of "JObj [(lit ''name'', JStr (lit ''Hornet''))]" app_example]
  by (simp add: import_tree_def app_example_def h_example_def alloc_def dict_has_def lit_eq_iff
      json_dump_def GameState_init_def)

section \<open>Rounding to binary64\<close>

lemma round_even_of_int: "round_even (of_int m) = m"
  by (simp add: round_even_def)

lemma round_even_le: "y \<le> of_int n \<Longrightarrow> round_even y \<le> n"
proof -
  assume a: "y \<le> of_int n"
  then have f: "\<lfloor>y\<rfloor> \<le> n" by (simp add: floor_le_iff)
  show ?thesis
  proof (cases "\<lfloor>y\<rfloor> = n")
    case True
    then have "of_int n \<le> y" by (metis of_int_floor_le)
    with a have "y = of_int n" by simp
    then show ?thesis by (simp add: round_even_of_int)
  next
    case False
    with f have "\<lfloor>y\<rfloor> + 1 \<le> n" by simp
    then show ?thesis by (simp add: round_even_def Let_def)
  qed
qed

lemma round_even_nonneg: "0 \<le> y \<Longrightarrow> 0 \<le> round_even y"
  by (simp add: round_even_def Let_def)

lemma round_even_up: "of_int n - 1 / 2 < y \<Longrightarrow> y < of_int n \<Longrightarrow> round_even y = n"
proof -
  assume a: "of_int n - 1 / 2 < y" "y < of_int n"
  then have "\<lfloor>y\<rfloor> = n - 1" by (simp add: floor_eq_iff)
  with a show ?thesis by (simp add: round_even_def Let_def)
qed

lemma binary64_nonneg: "0 \<le> x \<Longrightarrow> 0 \<le> binary64 x"
  by (simp add: binary64_def Let_def round_even_nonneg)

text \<open>
  Rounding does not pass a power of two: a quotient of at most 1 stays at most 1, and a
  percentage of at most 100 stays below 128.
\<close>

lemma binary64_le_pow2:
  assumes "0 < x" and "x \<le> 2 ^ k"
  shows "binary64 x \<le> 2 ^ k"
proof -
  define e where "e = max \<lfloor>log 2 \<bar>x\<bar>\<rfloor> (- 1022)"
  define q :: real where "q = 2 powr (of_int e - 52)"
  have q: "0 < q" by (simp add: q_def)
  from assms have "log 2 x \<le> real k" by (simp add: log_le_iff powr_realpow)
  then have "\<lfloor>log 2 x\<rfloor> \<le> int k" by (simp add: floor_le_iff)
  with assms(1) have e: "e \<le> int k" by (simp add: e_def)
  define n where "n = nat (int k - e + 52)"
  from e have n: "int n = int k - e + 52" by (simp add: n_def)
  have "2 ^ k = (2::real) powr (real k)" by (simp add: powr_realpow)
  also have "real k = real n + (of_int e - 52)" using n by linarith
  also have "(2::real) powr (real n + (of_int e - 52)) = 2 ^ n * q"
    by (simp add: powr_add powr_realpow q_def)
  finally have k: "(2::real) ^ k = 2 ^ n * q" .
  with assms(2) q have "x / q \<le> 2 ^ n" by (simp add: field_simps)
  then have "x / q \<le> of_int (2 ^ n)" by simp
  then have "round_even (x / q) \<le> 2 ^ n" by (rule round_even_le)
  then have "of_int (round_even (x / q)) \<le> (2::real) ^ n"
    by (metis of_int_le_iff of_int_numeral of_int_power)
  with q have "of_int (round_even (x / q)) * q \<le> 2 ^ n * q" by simp
  with k assms(1) show ?thesis by (simp add: binary64_def Let_def e_def q_def)
qed

text \<open>
  A number with a significand of 53 bits and an exponent in the range is a binary64 number:
  rounding leaves it as it is.
\<close>

lemma binary64_exact:
  assumes "2 ^ 52 \<le> m" and "m < 2 ^ 53" and "- 1074 \<le> k"
  shows "binary64 (of_int m * 2 powr of_int k) = of_int m * 2 powr of_int k"
proof -
  let ?x = "of_int m * 2 powr of_int k :: real"
  from assms have m: "(2::real) ^ 52 \<le> of_int m" "of_int m < (2::real) ^ 53"
    by (metis of_int_le_iff of_int_numeral of_int_power,
        metis of_int_less_iff of_int_numeral of_int_power)
  have pos: "0 < ?x" using m by (simp add: zero_less_mult_iff)
  have "2 powr (of_int (52 + k)) = (2::real) ^ 52 * 2 powr of_int k"
    by (simp add: powr_add)
  with m have lo: "2 powr (of_int (52 + k)) \<le> ?x" by simp
  have "2 powr (of_int (52 + k + 1)) = (2::real) ^ 53 * 2 powr of_int k"
    by (simp add: powr_add)
  with m have hi: "?x < 2 powr (of_int (52 + k + 1))" by simp
  from lo hi pos have "\<lfloor>log 2 ?x\<rfloor> = 52 + k"
    by (simp add: floor_log_eq_powr_iff)
  with pos assms(3) have e: "max \<lfloor>log 2 \<bar>?x\<bar>\<rfloor> (- 1022) = 52 + k" by simp
  have k: "real_of_int (52 + k) - 52 = real_of_int k" by simp
  from pos e show ?thesis
    by (simp add: binary64_def Let_def round_even_of_int k del: of_int_add)
qed

lemma binary64_eval:
  assumes "2 powr of_int e \<le> x" and "x < 2 powr (of_int e + 1)" and "- 1022 \<le> e"
  shows "binary64 x = of_int (round_even (x / 2 powr (of_int e - 52))) * 2 powr (of_int e - 52)"
proof -
  have "0 < (2::real) powr of_int e" by simp
  with assms(1) have pos: "0 < x" by linarith
  with assms have "\<lfloor>log 2 x\<rfloor> = e" by (simp add: floor_log_eq_powr_iff)
  with pos assms(3) show ?thesis by (simp add: binary64_def Let_def)
qed

lemma binary64_half: "binary64 (1 / 2) = 1 / 2"
  using binary64_exact [of "2 ^ 52" "- 53"] by (simp add: powr_minus)

lemma binary64_50: "binary64 50 = 50"
  using binary64_exact [of "50 * 2 ^ 47" "- 47"] by (simp add: powr_minus)

text \<open>
  The two roundings show in the result: for 7 correct guesses in 25 games the exact value
  of \<open>7 / 25 * 100\<close> is 28, and the float is the next number above 28, which Python
  prints as \<open>28.000000000000004\<close>.
\<close>

lemma binary64_7_25: "binary64 (7 / 25) = 5044031582654956 / 2 ^ 54"
proof -
  have "binary64 (7 / 25)
      = of_int (round_even ((7 / 25) / 2 powr (of_int (- 2) - 52))) * 2 powr (of_int (- 2) - 52)"
    by (rule binary64_eval) (simp_all add: powr_minus)
  moreover have "(7 / 25) / 2 powr (of_int (- 2) - 52) = (126100789566373888 / 25 :: real)"
    by (simp add: powr_minus)
  moreover have "round_even (126100789566373888 / 25) = 5044031582654956"
    by (rule round_even_up) simp_all
  ultimately show ?thesis by (simp add: powr_minus)
qed

lemma binary64_7_25_times_100: "binary64 (binary64 (7 / 25) * 100) = 28 + 1 / 2 ^ 48"
proof -
  let ?x = "5044031582654956 / 2 ^ 54 * 100 :: real"
  have "binary64 ?x
      = of_int (round_even (?x / 2 powr (of_int 4 - 52))) * 2 powr (of_int 4 - 52)"
    by (rule binary64_eval) (simp_all add: powr_minus)
  moreover have "?x / 2 powr (of_int 4 - 52) = (504403158265495600 / 64 :: real)"
    by (simp add: powr_minus)
  moreover have "round_even (504403158265495600 / 64) = 7881299347898369"
    by (rule round_even_up) simp_all
  ultimately show ?thesis by (simp add: powr_minus binary64_7_25)
qed

text \<open>
  With \<open>0 \<le> wins \<le> played\<close> neither operation leaves the range of the floats, so
  \<open>_update_status\<close> raises nothing and the accuracy is finite.
\<close>

lemma int_truediv_unit:
  assumes "0 \<le> w" and "w \<le> p" and "p \<noteq> 0"
  shows "int_truediv w p = Inr (Finite False (binary64 (of_int w / of_int p)))"
    and "0 \<le> binary64 (of_int w / of_int p)" and "binary64 (of_int w / of_int p) \<le> 1"
proof -
  let ?x = "real_of_int w / real_of_int p"
  from assms have p: "0 < p" by simp
  with assms have x: "0 \<le> ?x" "?x \<le> 1" by simp_all
  from x(1) show nn: "0 \<le> binary64 ?x" by (rule binary64_nonneg)
  show le: "binary64 ?x \<le> 1"
  proof (cases "?x = 0")
    case True
    then show ?thesis by (simp add: binary64_def)
  next
    case False
    with x(1) have "0 < ?x" by linarith
    moreover from x(2) have "?x \<le> 2 ^ 0" by simp
    ultimately have "binary64 ?x \<le> 2 ^ 0" by (rule binary64_le_pow2)
    then show ?thesis by simp
  qed
  have "(1::real) < 2 ^ 1024" by simp
  with le have "\<not> 2 ^ 1024 \<le> binary64 ?x" by linarith
  moreover from assms p have "\<bar>real_of_int w\<bar> / \<bar>real_of_int p\<bar> = ?x" by simp
  ultimately show "int_truediv w p = Inr (Finite False (binary64 ?x))"
    using assms p by (simp add: int_truediv_def Let_def)
qed

lemma float_mul_100_unit:
  assumes "0 \<le> m" and "m \<le> 1"
  shows "float_mul_100 (Finite s m) = Finite s (binary64 (m * 100))"
proof -
  have le: "binary64 (m * 100) \<le> 2 ^ 7"
  proof (cases "m = 0")
    case True
    then show ?thesis by (simp add: binary64_def)
  next
    case False
    with assms have "0 < m * 100" "m * 100 \<le> 2 ^ 7" by simp_all
    then show ?thesis by (rule binary64_le_pow2)
  qed
  have "(2::real) ^ 7 < 2 ^ 1024" by simp
  with le have "\<not> 2 ^ 1024 \<le> binary64 (m * 100)" by linarith
  then show ?thesis by (simp add: float_mul_100_def Let_def)
qed

lemma update_status_unit:
  assumes "0 \<le> (case st (lit ''wins'') of None \<Rightarrow> 0 | Some n \<Rightarrow> n)"
    and "(case st (lit ''wins'') of None \<Rightarrow> 0 | Some n \<Rightarrow> n)
           \<le> (case st (lit ''played'') of None \<Rightarrow> 0 | Some n \<Rightarrow> n)"
  shows "update_status st =
     Inr (case st (lit ''played'') of None \<Rightarrow> 0 | Some n \<Rightarrow> n,
          case st (lit ''wins'') of None \<Rightarrow> 0 | Some n \<Rightarrow> n,
          case st (lit ''learned'') of None \<Rightarrow> 0 | Some n \<Rightarrow> n,
          if (case st (lit ''played'') of None \<Rightarrow> 0 | Some n \<Rightarrow> n) \<noteq> 0
          then Finite False (binary64 (binary64
                 (of_int (case st (lit ''wins'') of None \<Rightarrow> 0 | Some n \<Rightarrow> n)
                  / of_int (case st (lit ''played'') of None \<Rightarrow> 0 | Some n \<Rightarrow> n)) * 100))
          else Finite False 0)"
proof -
  define p where "p = (case st (lit ''played'') of None \<Rightarrow> 0 | Some n \<Rightarrow> n)"
  define w where "w = (case st (lit ''wins'') of None \<Rightarrow> 0 | Some n \<Rightarrow> n)"
  from assms have wp: "0 \<le> w" "w \<le> p" by (simp_all add: p_def w_def)
  show ?thesis
  proof (cases "p = 0")
    case True
    then show ?thesis by (simp add: update_status_def Let_def p_def)
  next
    case False
    note d = int_truediv_unit [OF wp False]
    from float_mul_100_unit [OF d(2,3)] d(1) False show ?thesis
      by (simp add: update_status_def Let_def p_def [symmetric] w_def [symmetric])
  qed
qed

text \<open>
  The status line after 7 correct guesses and 18 learning events.
\<close>

lemma update_status_7_of_25:
  "update_status [lit ''played'' \<mapsto> 25, lit ''wins'' \<mapsto> 7, lit ''learned'' \<mapsto> 18]
     = Inr (25, 7, 18, Finite False (28 + 1 / 2 ^ 48))"
  by (subst update_status_unit) (simp_all add: lit_eq_iff binary64_7_25_times_100)

section \<open>Statistics\<close>

lemma new_game_stats: "new_game app = Inr app1 \<Longrightarrow> stats app1 = stats app"
  by (auto simp: new_game_def Let_def split: sum.splits)

lemma learn_dialog_stats:
  assumes "learn_dialog app g true_name q ans = Inr app1"
    and "stats app (lit ''played'') = Some p" "stats app (lit ''wins'') = Some w"
    and "stats app (lit ''learned'') = Some l"
  shows "if truthy true_name \<and> truthy q
         then stats app1 (lit ''played'') = Some (p + 1) \<and> stats app1 (lit ''wins'') = Some w
              \<and> stats app1 (lit ''learned'') = Some (l + 1)
         else stats app1 = stats app"
proof (cases "truthy true_name \<and> truthy q")
  case False
  with assms(1) show ?thesis by (auto simp: learn_dialog_def split: if_splits)
next
  case True
  with assms(1) obtain h dk st dk1 where
    "new_game \<lparr>heap = h, disk = save_stats
        ((stats app)(lit ''played'' \<mapsto> p + 1, lit ''learned'' \<mapsto> l + 1)) dk1, state = st,
        stats = (stats app)(lit ''played'' \<mapsto> p + 1, lit ''learned'' \<mapsto> l + 1)\<rparr> = Inr app1"
    using assms(2,4)
    by (auto simp: learn_dialog_def Let_def lit_eq_iff split: sum.splits prod.splits option.splits)
  from new_game_stats [OF this] True assms(3) show ?thesis by (simp add: lit_eq_iff)
qed

lemma on_button_stats:
  assumes "on_button app which true_name q ans = Inr app1"
    and "stats app (lit ''played'') = Some p" "stats app (lit ''wins'') = Some w"
    and "stats app (lit ''learned'') = Some l"
  shows "case outcome_of app (Button which true_name q ans) of
           Correct_guess \<Rightarrow> stats app1 (lit ''played'') = Some (p + 1)
              \<and> stats app1 (lit ''wins'') = Some (w + 1) \<and> stats app1 (lit ''learned'') = Some l
         | Learned \<Rightarrow> stats app1 (lit ''played'') = Some (p + 1)
              \<and> stats app1 (lit ''wins'') = Some w \<and> stats app1 (lit ''learned'') = Some (l + 1)
         | No_outcome \<Rightarrow> stats app1 = stats app"
proof (cases "is_leaf (heap app) (node (state app))")
  case False
  with assms(1) show ?thesis
    by (auto simp: on_button_def outcome_of_def split: sum.splits)
next
  case leaf: True
  show ?thesis
  proof (cases "which = lit ''yes''")
    case True
    with leaf assms(1) assms(2,3) have
      "new_game (app\<lparr>disk := save_stats
          ((stats app)(lit ''played'' \<mapsto> p + 1, lit ''wins'' \<mapsto> w + 1)) (disk app),
          stats := (stats app)(lit ''played'' \<mapsto> p + 1, lit ''wins'' \<mapsto> w + 1)\<rparr>) = Inr app1"
      by (auto simp: on_button_def Let_def lit_eq_iff split: val.splits option.splits)
    from new_game_stats [OF this] leaf True assms(4) show ?thesis
      by (simp add: outcome_of_def lit_eq_iff)
  next
    case False
    with leaf assms(1) obtain g where "learn_dialog app g true_name q ans = Inr app1"
      by (auto simp: on_button_def split: val.splits option.splits)
    from learn_dialog_stats [OF this assms(2,3,4)] leaf False show ?thesis
      by (auto simp: outcome_of_def)
  qed
qed

lemma run_stats:
  "run app evs = Inr (app', os) \<Longrightarrow>
   stats app (lit ''played'') = Some p \<Longrightarrow> stats app (lit ''wins'') = Some w \<Longrightarrow>
   stats app (lit ''learned'') = Some l \<Longrightarrow>
   stats app' (lit ''played'')
     = Some (p + int (count_list os Correct_guess) + int (count_list os Learned))
   \<and> stats app' (lit ''wins'') = Some (w + int (count_list os Correct_guess))
   \<and> stats app' (lit ''learned'') = Some (l + int (count_list os Learned))"
proof (induction evs arbitrary: app os p w l)
  case Nil
  then show ?case by simp
next
  case (Cons ev evs)
  obtain which tn q ans where ev: "ev = Button which tn q ans" by (cases ev)
  from Cons.prems(1) ev obtain app1 os1 where
    b: "on_button app which tn q ans = Inr app1" and
    r: "run app1 evs = Inr (app', os1)" and
    os: "os = outcome_of app (Button which tn q ans) # os1"
    by (auto split: sum.splits)
  note step = on_button_stats [OF b Cons.prems(2,3,4)]
  show ?case
  proof (cases "outcome_of app (Button which tn q ans)")
    case Correct_guess
    with step have "stats app1 (lit ''played'') = Some (p + 1)"
      "stats app1 (lit ''wins'') = Some (w + 1)" "stats app1 (lit ''learned'') = Some l"
      by simp_all
    from Cons.IH [OF r this] os Correct_guess show ?thesis by simp
  next
    case Learned
    with step have "stats app1 (lit ''played'') = Some (p + 1)"
      "stats app1 (lit ''wins'') = Some w" "stats app1 (lit ''learned'') = Some (l + 1)"
      by simp_all
    from Cons.IH [OF r this] os Learned show ?thesis by simp
  next
    case No_outcome
    with step Cons.prems have "stats app1 (lit ''played'') = Some p"
      "stats app1 (lit ''wins'') = Some w" "stats app1 (lit ''learned'') = Some l"
      by simp_all
    from Cons.IH [OF r this] os No_outcome show ?thesis by simp
  qed
qed

text \<open>
  Claim C3. Starting from zeroed statistics, along every sequence of button presses that the
  application handles, each correct guess (\<open>yes\<close> at a leaf) adds one to \<open>played\<close> and
  to \<open>wins\<close>, each learning event (another answer at a leaf, with both dialogs filled in)
  adds one to \<open>played\<close> and to \<open>learned\<close> and nothing to \<open>wins\<close>, and no other press
  changes a counter: after \<open>N\<close> correct guesses and \<open>M\<close> learning events the counters are
  \<open>N + M\<close>, \<open>N\<close> and \<open>M\<close>. \<open>_update_status\<close> then raises nothing and the accuracy it
  shows is the float that Python computes for \<open>wins / played * 100\<close>, the quotient
  \<open>N / (N + M)\<close> rounded to a float, multiplied by 100 and rounded again, when
  \<open>played > 0\<close>, and \<open>0.0\<close> when \<open>played\<close> is 0.
\<close>

theorem stats_counters:
  assumes "stats app (lit ''played'') = Some 0" and "stats app (lit ''wins'') = Some 0"
    and "stats app (lit ''learned'') = Some 0"
    and "run app evs = Inr (app', os)"
  shows "stats app' (lit ''played'')
           = Some (int (count_list os Correct_guess) + int (count_list os Learned))
     \<and> stats app' (lit ''wins'') = Some (int (count_list os Correct_guess))
     \<and> stats app' (lit ''learned'') = Some (int (count_list os Learned))
     \<and> update_status (stats app')
         = Inr (int (count_list os Correct_guess) + int (count_list os Learned),
                int (count_list os Correct_guess), int (count_list os Learned),
                if 0 < count_list os Correct_guess + count_list os Learned
                then Finite False (binary64 (binary64
                       (real (count_list os Correct_guess)
                        / real (count_list os Correct_guess + count_list os Learned)) * 100))
                else Finite False 0)"
proof -
  from run_stats [OF assms(4) assms(1,2,3)]
  have c: "stats app' (lit ''played'')
           = Some (int (count_list os Correct_guess) + int (count_list os Learned))"
    "stats app' (lit ''wins'') = Some (int (count_list os Correct_guess))"
    "stats app' (lit ''learned'') = Some (int (count_list os Learned))"
    by simp_all
  have "update_status (stats app')
         = Inr (int (count_list os Correct_guess) + int (count_list os Learned),
                int (count_list os Correct_guess), int (count_list os Learned),
                if 0 < count_list os Correct_guess + count_list os Learned
                then Finite False (binary64 (binary64
                       (real (count_list os Correct_guess)
                        / real (count_list os Correct_guess + count_list os Learned)) * 100))
                else Finite False 0)"
    by (subst update_status_unit) (simp_all add: c)
  with c show ?thesis by simp
qed

lemma run_events_example:
  "\<exists>app'. run app_example events_example
     = Inr (app', [No_outcome, Correct_guess, No_outcome, Learned])"
  by (simp add: events_example_def app_example_def h_example_def on_button_def learn_dialog_def
      learn_def answer_def is_leaf_def dict_has_def dict_get_def alloc_def save_tree_def
      json_dump_def save_stats_def new_game_def GameState_init_def truthy_def strip_def
      normalize_question_def endswith_def isspace_def lit_def outcome_of_def Let_def
      current_text_def update_status_unit utf8_encodable_def dump_error_ok)

theorem stats_counters_witness:
  "\<exists>app'. run app_example events_example
       = Inr (app', [No_outcome, Correct_guess, No_outcome, Learned])
     \<and> stats app_example (lit ''played'') = Some 0
     \<and> stats app' (lit ''played'') = Some 2 \<and> stats app' (lit ''wins'') = Some 1
     \<and> stats app' (lit ''learned'') = Some 1
     \<and> update_status (stats app') = Inr (2, 1, 1, Finite False 50)"
proof -
  from run_events_example obtain app' where
    r: "run app_example events_example
          = Inr (app', [No_outcome, Correct_guess, No_outcome, Learned])" ..
  have z: "stats app_example (lit ''played'') = Some 0" "stats app_example (lit ''wins'') = Some 0"
    "stats app_example (lit ''learned'') = Some 0"
    by (simp_all add: app_example_def lit_eq_iff)
  from stats_counters [OF z r] z(1) r show ?thesis by (simp add: binary64_half binary64_50)
qed

section \<open>Loading a document and serialising it again\<close>

lemma dump_ext:
  assumes "dump n h v = Some j"
  shows "dump (n + m) (h @ e) v = Some j \<and> addrs (n + m) (h @ e) v = addrs n h v"
proof -
  from assms have "\<forall>a \<in> set (addrs n h v). a < length h" by (rule dump_valid(1))
  then have "\<forall>a \<in> set (addrs n h v). a < length (h @ e) \<and> (h @ e) ! a = h ! a"
    by (auto simp: nth_append)
  with assms have f: "dump n (h @ e) v = Some j \<and> addrs n (h @ e) v = addrs n h v"
    by (rule dump_frame(1))
  then have "dump (n + m) (h @ e) v = Some j \<and> addrs (n + m) (h @ e) v = addrs n (h @ e) v"
    using dump_mono(1) by blast
  with f show ?thesis by simp
qed

lemma dump_items_ext:
  assumes "dump_items n h d = Some js"
  shows "dump_items (n + m) (h @ e) d = Some js
     \<and> addrs_items (n + m) (h @ e) d = addrs_items n h d"
proof -
  from assms have "\<forall>a \<in> set (addrs_items n h d). a < length h" by (rule dump_valid(2))
  then have "\<forall>a \<in> set (addrs_items n h d). a < length (h @ e) \<and> (h @ e) ! a = h ! a"
    by (auto simp: nth_append)
  with assms have f: "dump_items n (h @ e) d = Some js
      \<and> addrs_items n (h @ e) d = addrs_items n h d"
    by (rule dump_frame(2))
  then have "dump_items (n + m) (h @ e) d = Some js
      \<and> addrs_items (n + m) (h @ e) d = addrs_items n (h @ e) d"
    using dump_mono(2) by blast
  with f show ?thesis by simp
qed

lemma dict_set_fresh: "k \<notin> fst ` set d \<Longrightarrow> dict_set d k v = d @ [(k, v)]"
  by (induction d) auto

lemma json_load_dump:
  "json_load j h = (v, h') \<Longrightarrow> distinct_keys j \<Longrightarrow>
     dump (length h' - length h) h' v = Some j
     \<and> set (addrs (length h' - length h) h' v) \<subseteq> {length h..<length h'}
     \<and> distinct (addrs (length h' - length h) h' v)"
  "json_load_items kvs d h = (d', h') \<Longrightarrow> distinct (map fst kvs) \<Longrightarrow>
     distinct_keys_items kvs \<Longrightarrow> fst ` set kvs \<inter> fst ` set d = {} \<Longrightarrow>
     \<exists>vs. d' = d @ vs
       \<and> dump_items (length h' - length h) h' vs = Some kvs
       \<and> set (addrs_items (length h' - length h) h' vs) \<subseteq> {length h..<length h'}
       \<and> distinct (addrs_items (length h' - length h) h' vs)"
proof (induction j h and kvs d h arbitrary: v h' and d' h' rule: json_load_json_load_items.induct)
  case (1 x h)
  then show ?case by auto
next
  case (2 s h)
  then show ?case by auto
next
  case (3 kvs h)
  obtain d1 h1 where l: "json_load_items kvs [] h = (d1, h1)" by (meson surj_pair)
  from 3(2) l have v: "v = Dict (length h1)" and h': "h' = h1 @ [d1]"
    by (simp_all add: alloc_def)
  from json_load_ext(2) [OF l] obtain e where e: "h1 = h @ e" ..
  from 3(3) have dk: "distinct (map fst kvs)" "distinct_keys_items kvs" by simp_all
  have "fst ` set kvs \<inter> fst ` set ([] :: 'a dict) = {}" by simp
  from 3(1) [OF l dk this] obtain vs where
    vs: "d1 = vs" and
    du: "dump_items (length h1 - length h) h1 vs = Some kvs" and
    su: "set (addrs_items (length h1 - length h) h1 vs) \<subseteq> {length h..<length h1}" and
    di: "distinct (addrs_items (length h1 - length h) h1 vs)"
    by auto
  let ?n = "length h1 - length h"
  from dump_items_ext [OF du, of 0 "[d1]"] h'
  have x: "dump_items ?n h' vs = Some kvs" "addrs_items ?n h' vs = addrs_items ?n h1 vs"
    by simp_all
  have len: "length h' - length h = Suc ?n" using e h' by simp
  have at: "h' ! length h1 = vs" using h' vs by simp
  have lt: "length h1 < length h'" using h' by simp
  have 1: "dump (Suc ?n) h' (Dict (length h1)) = Some (JObj kvs)"
    using x(1) at lt by simp
  have 2: "addrs (Suc ?n) h' (Dict (length h1)) = length h1 # addrs_items ?n h1 vs"
    using x(2) at by simp
  have 3: "set (length h1 # addrs_items ?n h1 vs) \<subseteq> {length h..<length h'}"
    using su e h' by auto
  have 4: "distinct (length h1 # addrs_items ?n h1 vs)"
    using su di by auto
  from 1 2 3 4 show ?case by (simp only: v len)
next
  case (4 d h)
  then show ?case by auto
next
  case (5 k j kvs d h)
  obtain v1 h1 where l: "json_load j h = (v1, h1)" by (meson surj_pair)
  from 5(3) l have r: "json_load_items kvs (dict_set d k v1) h1 = (d', h')" by simp
  from json_load_ext(1) [OF l] obtain e1 where e1: "h1 = h @ e1" ..
  from json_load_ext(2) [OF r] obtain e2 where e2: "h' = h1 @ e2" ..
  from 5(4) have kn: "k \<notin> fst ` set kvs" and dist: "distinct (map fst kvs)" by auto
  from 5(5) have dkj: "distinct_keys j" and dki: "distinct_keys_items kvs" by simp_all
  from 5(6) have kd: "k \<notin> fst ` set d" and disj: "fst ` set kvs \<inter> fst ` set d = {}" by auto
  from kd have ds: "dict_set d k v1 = d @ [(k, v1)]" by (rule dict_set_fresh)
  from kn disj have disj2: "fst ` set kvs \<inter> fst ` set (dict_set d k v1) = {}"
    by (auto simp: ds)
  let ?n1 = "length h1 - length h" and ?n2 = "length h' - length h1"
  from 5(1) [OF l dkj] have
    a1: "dump ?n1 h1 v1 = Some j" and
    a2: "set (addrs ?n1 h1 v1) \<subseteq> {length h..<length h1}" and
    a3: "distinct (addrs ?n1 h1 v1)"
    by simp_all
  from 5(2) [OF l [symmetric] refl r dist dki disj2] obtain vs2 where
    b0: "d' = dict_set d k v1 @ vs2" and
    b1: "dump_items ?n2 h' vs2 = Some kvs" and
    b2: "set (addrs_items ?n2 h' vs2) \<subseteq> {length h1..<length h'}" and
    b3: "distinct (addrs_items ?n2 h' vs2)"
    by auto
  have len: "length h' - length h = ?n1 + ?n2" "length h' - length h = ?n2 + ?n1"
    using e1 e2 by simp_all
  from dump_ext [OF a1, of ?n2 e2] e2
  have c: "dump (?n1 + ?n2) h' v1 = Some j" "addrs (?n1 + ?n2) h' v1 = addrs ?n1 h1 v1"
    by simp_all
  from dump_mono(2) [OF b1, of ?n1]
  have d: "dump_items (?n2 + ?n1) h' vs2 = Some kvs"
    "addrs_items (?n2 + ?n1) h' vs2 = addrs_items ?n2 h' vs2"
    by simp_all
  let ?N = "length h' - length h"
  have c': "dump ?N h' v1 = Some j" "addrs ?N h' v1 = addrs ?n1 h1 v1"
    using c by (simp_all only: len(1))
  have d': "dump_items ?N h' vs2 = Some kvs" "addrs_items ?N h' vs2 = addrs_items ?n2 h' vs2"
    using d by (simp_all only: len(2))
  have 1: "d' = d @ ((k, v1) # vs2)" using b0 ds by simp
  have 2: "dump_items ?N h' ((k, v1) # vs2) = Some ((k, j) # kvs)"
    using c'(1) d'(1) by simp
  have 3: "addrs_items ?N h' ((k, v1) # vs2) = addrs ?n1 h1 v1 @ addrs_items ?n2 h' vs2"
    using c'(2) d'(2) by simp
  have 4: "set (addrs ?n1 h1 v1 @ addrs_items ?n2 h' vs2) \<subseteq> {length h..<length h'}"
    using a2 b2 e1 e2 by auto
  have 5: "distinct (addrs ?n1 h1 v1 @ addrs_items ?n2 h' vs2)"
    using a2 a3 b2 b3 by fastforce
  from 1 2 3 4 5 show ?case by (intro exI [of _ "(k, v1) # vs2"]) simp
qed

lemma json_load_json_dump:
  assumes "json_load j h = (v, h')" and "distinct_keys j"
  shows "json_dump h' v = Some j"
proof -
  from json_load_ext(1) [OF assms(1)] obtain e where e: "h' = h @ e" ..
  from json_load_dump(1) [OF assms] have "dump (length h' - length h) h' v = Some j" by simp
  from dump_mono(1) [OF this, of "length h"] e show ?thesis
    by (simp add: json_dump_def add.commute)
qed

section \<open>Grafting a subtree into the store\<close>

lemma dump_unchanged:
  assumes "dump n h v = Some j" and "p \<notin> set (addrs n h v)"
    and "length h \<le> length h4" and "\<forall>i<length h. i \<noteq> p \<longrightarrow> h4 ! i = h ! i"
  shows "dump (n + k) h4 v = Some j"
proof -
  from assms(1) have "\<forall>a \<in> set (addrs n h v). a < length h" by (rule dump_valid(1))
  with assms(2,3,4) have "\<forall>a \<in> set (addrs n h v). a < length h4 \<and> h4 ! a = h ! a"
    by fastforce
  with assms(1) have "dump n h4 v = Some j \<and> addrs n h4 v = addrs n h v" by (rule dump_frame(1))
  then show ?thesis using dump_mono(1) by blast
qed

lemma dump_items_unchanged:
  assumes "dump_items n h d = Some js" and "p \<notin> set (addrs_items n h d)"
    and "length h \<le> length h4" and "\<forall>i<length h. i \<noteq> p \<longrightarrow> h4 ! i = h ! i"
  shows "dump_items (n + k) h4 d = Some js"
proof -
  from assms(1) have "\<forall>a \<in> set (addrs_items n h d). a < length h" by (rule dump_valid(2))
  with assms(2,3,4) have "\<forall>a \<in> set (addrs_items n h d). a < length h4 \<and> h4 ! a = h ! a"
    by fastforce
  with assms(1) have "dump_items n h4 d = Some js \<and> addrs_items n h4 d = addrs_items n h d"
    by (rule dump_frame(2))
  then show ?thesis using dump_mono(2) by blast
qed

lemma dump_items_lookup:
  "dump_items n h its = Some js \<Longrightarrow> map_of its b = Some c \<Longrightarrow>
     \<exists>jc. dump n h c = Some jc \<and> map_of js b = Some jc
       \<and> set (addrs n h c) \<subseteq> set (addrs_items n h its)"
proof (induction its arbitrary: js)
  case Nil
  then show ?case by simp
next
  case (Cons kv its)
  obtain k' v' where kv: "kv = (k', v')" by (cases kv)
  from Cons.prems(1) kv obtain j' js' where
    d1: "dump n h v' = Some j'" and d2: "dump_items n h its = Some js'" and
    js: "js = (k', j') # js'"
    by (auto split: option.splits)
  show ?case
  proof (cases "k' = b")
    case True
    with Cons.prems(2) kv have "c = v'" by simp
    with d1 js True kv show ?thesis by auto
  next
    case False
    with Cons.prems(2) kv have "map_of its b = Some c" by simp
    from Cons.IH [OF d2 this] obtain jc where
      "dump n h c = Some jc" "map_of js' b = Some jc"
      "set (addrs n h c) \<subseteq> set (addrs_items n h its)"
      by blast
    with js False kv show ?thesis by auto
  qed
qed

lemma dump_items_keys: "dump_items n h its = Some js \<Longrightarrow> map fst js = map fst its"
proof (induction its arbitrary: js)
  case Nil
  then show ?case by simp
next
  case (Cons kv its)
  obtain k' v' where kv: "kv = (k', v')" by (cases kv)
  from Cons.prems kv obtain j' js' where
    "dump_items n h its = Some js'" "js = (k', j') # js'"
    by (auto split: option.splits)
  with Cons.IH kv show ?case by simp
qed

lemma dump_Dict:
  assumes "dump n h (Dict a) = Some d"
  obtains n' js where "n = Suc n'" "a < length h" "d = JObj js"
    "dump_items n' h (h ! a) = Some js"
proof (cases n)
  case 0
  with assms show ?thesis by simp
next
  case (Suc n')
  with assms that show ?thesis by (auto split: if_splits)
qed

lemma addrs_items_lookup_distinct:
  "distinct (addrs_items n h its) \<Longrightarrow> map_of its b = Some c \<Longrightarrow> distinct (addrs n h c)"
proof (induction its)
  case Nil
  then show ?case by simp
next
  case (Cons kv its)
  obtain k' v' where kv: "kv = (k', v')" by (cases kv)
  with Cons show ?case by (cases "k' = b") simp_all
qed

lemma dump_items_dict_set:
  assumes "dump_items n h its = Some js" and "map_of its b = Some c"
    and "p \<notin> set (addrs_items n h its)"
    and "length h \<le> length h4" and "\<forall>i<length h. i \<noteq> p \<longrightarrow> h4 ! i = h ! i"
    and "dump (n + k) h4 new = Some newdoc"
  shows "dump_items (n + k) h4 (dict_set its b new) = Some (replace_in js b [] newdoc)"
  using assms(1,2,3)
proof (induction its arbitrary: js)
  case Nil
  then show ?case by simp
next
  case (Cons kv its)
  obtain k' v' where kv: "kv = (k', v')" by (cases kv)
  from Cons.prems(1) kv obtain j' js' where
    d1: "dump n h v' = Some j'" and d2: "dump_items n h its = Some js'" and
    js: "js = (k', j') # js'"
    by (auto split: option.splits)
  from Cons.prems(3) kv have p1: "p \<notin> set (addrs n h v')" and p2: "p \<notin> set (addrs_items n h its)"
    by simp_all
  show ?case
  proof (cases "k' = b")
    case True
    from dump_items_unchanged [OF d2 p2 assms(4,5)]
    have "dump_items (n + k) h4 its = Some js'" .
    with True kv js assms(6) show ?thesis by simp
  next
    case False
    with Cons.prems(2) kv have m: "map_of its b = Some c" by simp
    from dump_unchanged [OF d1 p1 assms(4,5)] have u: "dump (n + k) h4 v' = Some j'" .
    from Cons.IH [OF d2 m p2] u False kv js show ?thesis by simp
  qed
qed

lemma dump_items_graft:
  assumes "dump_items n h its = Some js" and "map_of its b = Some c"
    and "distinct (addrs_items n h its)" and "p \<in> set (addrs n h c)"
    and "length h \<le> length h4" and "\<forall>i<length h. i \<noteq> p \<longrightarrow> h4 ! i = h ! i"
    and "\<And>jc. dump n h c = Some jc \<Longrightarrow> dump (n + k) h4 c = Some (replace_at jc bs newdoc)"
  shows "dump_items (n + k) h4 its = Some (replace_in js b bs newdoc)"
  using assms(1,2,3)
proof (induction its arbitrary: js)
  case Nil
  then show ?case by simp
next
  case (Cons kv its)
  obtain k' v' where kv: "kv = (k', v')" by (cases kv)
  from Cons.prems(1) kv obtain j' js' where
    d1: "dump n h v' = Some j'" and d2: "dump_items n h its = Some js'" and
    js: "js = (k', j') # js'"
    by (auto split: option.splits)
  from Cons.prems(3) kv have di: "distinct (addrs_items n h its)"
    and dj: "set (addrs n h v') \<inter> set (addrs_items n h its) = {}"
    by simp_all
  show ?case
  proof (cases "k' = b")
    case True
    with Cons.prems(2) kv have c: "c = v'" by simp
    with assms(4) dj have "p \<notin> set (addrs_items n h its)" by auto
    from dump_items_unchanged [OF d2 this assms(5,6)]
    have "dump_items (n + k) h4 its = Some js'" .
    moreover from assms(7) [of j'] d1 c
    have "dump (n + k) h4 v' = Some (replace_at j' bs newdoc)" by simp
    ultimately show ?thesis using True kv js by simp
  next
    case False
    with Cons.prems(2) kv have m: "map_of its b = Some c" by simp
    from dump_items_lookup [OF d2 m]
    have "set (addrs n h c) \<subseteq> set (addrs_items n h its)" by blast
    with assms(4) dj have "p \<notin> set (addrs n h v')" by auto
    from dump_unchanged [OF d1 this assms(5,6)] have u: "dump (n + k) h4 v' = Some j'" .
    from Cons.IH [OF d2 m di] u False kv js show ?thesis by simp
  qed
qed

lemma walk_Cons:
  assumes "walk h v ((u, b) # ps) = Some x"
  obtains a c where "u = v" "v = Dict a" "a < length h" "map_of (h ! a) b = Some c"
    "walk h c ps = Some x"
  using assms by (auto simp: dict_get_def split: if_splits val.splits option.splits)

lemma walk_last_addr:
  "walk h v ps = Some x \<Longrightarrow> ps \<noteq> [] \<Longrightarrow> last ps = (Dict p, side) \<Longrightarrow>
     dump n h v = Some d \<Longrightarrow> p \<in> set (addrs n h v)"
proof (induction ps arbitrary: v n d)
  case Nil
  then show ?case by simp
next
  case (Cons ub ps)
  obtain u b where ub: "ub = (u, b)" by (cases ub)
  from Cons.prems(1) ub have "walk h v ((u, b) # ps) = Some x" by simp
  then obtain a c where
    w: "u = v" "v = Dict a" "a < length h" "map_of (h ! a) b = Some c" "walk h c ps = Some x"
    by (rule walk_Cons)
  from Cons.prems(4) w(2) have "dump n h (Dict a) = Some d" by simp
  then obtain n' js where
    n: "n = Suc n'" "dump_items n' h (h ! a) = Some js"
    by (rule dump_Dict)
  show ?case
  proof (cases "ps = []")
    case True
    with Cons.prems(3) ub w(1,2) have "p = a" by simp
    with w(2) n(1) show ?thesis by simp
  next
    case False
    with Cons.prems(3) have l: "last ps = (Dict p, side)" by simp
    from dump_items_lookup [OF n(2) w(4)] obtain jc where
      jc: "dump n' h c = Some jc" "set (addrs n' h c) \<subseteq> set (addrs_items n' h (h ! a))"
      by blast
    from Cons.IH [OF w(5) False l jc(1)] jc(2) w(2) n(1) show ?thesis by auto
  qed
qed

lemma graft:
  assumes new: "dump k h3 new = Some newdoc" "\<forall>a\<in>set (addrs k h3 new). length h \<le> a"
    and ext: "length h \<le> length h3" "\<forall>i<length h. h3 ! i = h ! i"
    and h4: "h4 = h3[p := dict_set (h3 ! p) side new]"
  shows "walk h v ps = Some x \<Longrightarrow> ps \<noteq> [] \<Longrightarrow> last ps = (Dict p, side) \<Longrightarrow>
     dump n h v = Some d \<Longrightarrow> distinct (addrs n h v) \<Longrightarrow>
     dump (n + k) h4 v = Some (replace_at d (map snd ps) newdoc)"
proof (induction ps arbitrary: v n d)
  case Nil
  then show ?case by simp
next
  case (Cons ub ps)
  obtain u b where ub: "ub = (u, b)" by (cases ub)
  from Cons.prems(1) ub have "walk h v ((u, b) # ps) = Some x" by simp
  then obtain a c where
    w: "u = v" "v = Dict a" "a < length h" "map_of (h ! a) b = Some c" "walk h c ps = Some x"
    by (rule walk_Cons)
  from Cons.prems(4) w(2) have "dump n h (Dict a) = Some d" by simp
  then obtain n' js where
    n: "n = Suc n'" "d = JObj js" "dump_items n' h (h ! a) = Some js"
    by (rule dump_Dict)
  from Cons.prems(5) w(2) n(1) have
    an: "a \<notin> set (addrs_items n' h (h ! a))" and di: "distinct (addrs_items n' h (h ! a))"
    by simp_all
  from walk_last_addr [OF Cons.prems(1,2,3,4)] have "p \<in> set (addrs n h v)" .
  with dump_valid(1) [OF Cons.prems(4)] have pl: "p < length h" by blast
  have len: "length h \<le> length h4" using ext(1) h4 by simp
  have same: "\<forall>i<length h. i \<noteq> p \<longrightarrow> h4 ! i = h ! i" using ext h4 by simp
  have atp: "h4 ! p = dict_set (h ! p) side new" using ext pl h4 by simp
  have newd: "dump (n' + k) h4 new = Some newdoc"
  proof -
    from dump_valid(1) [OF new(1)] new(2) pl
    have "\<forall>a\<in>set (addrs k h3 new). a < length h4 \<and> h4 ! a = h3 ! a"
      using h4 by fastforce
    with new(1) have "dump k h4 new = Some newdoc \<and> addrs k h4 new = addrs k h3 new"
      by (rule dump_frame(1))
    then have "dump (k + n') h4 new = Some newdoc" using dump_mono(1) by blast
    then show ?thesis by (simp add: add.commute)
  qed
  have "dump_items (n' + k) h4 (h4 ! a) = Some (replace_in js b (map snd ps) newdoc)"
  proof (cases "ps = []")
    case True
    with Cons.prems(3) ub w(1,2) have pa: "p = a" "side = b" by simp_all
    from an pa have "p \<notin> set (addrs_items n' h (h ! a))" by simp
    from dump_items_dict_set [OF n(3) w(4) this len same newd] atp pa True
    show ?thesis by simp
  next
    case False
    with Cons.prems(3) have l: "last ps = (Dict p, side)" by simp
    from dump_items_lookup [OF n(3) w(4)] obtain jc0 where
      jc0: "dump n' h c = Some jc0" "set (addrs n' h c) \<subseteq> set (addrs_items n' h (h ! a))"
      by blast
    from walk_last_addr [OF w(5) False l jc0(1)] have pc: "p \<in> set (addrs n' h c)" .
    with jc0(2) an have "p \<noteq> a" by auto
    with same w(3) have ata: "h4 ! a = h ! a" by simp
    from addrs_items_lookup_distinct [OF di w(4)] have dc: "distinct (addrs n' h c)" .
    have ih: "\<And>jc. dump n' h c = Some jc \<Longrightarrow>
        dump (n' + k) h4 c = Some (replace_at jc (map snd ps) newdoc)"
      using Cons.IH [OF w(5) False l _ dc] by blast
    from dump_items_graft [OF n(3) w(4) di pc len same ih] ata show ?thesis by simp
  qed
  moreover have "a < length h4" using w(3) len by simp
  ultimately show ?case using w(2) n(1,2) ub by simp
qed

lemma walk_descend:
  "walk h v ps = Some x \<Longrightarrow> dump n h v = Some d \<Longrightarrow>
     \<exists>j. descend d (map snd ps) = Some j \<and> dump n h x = Some j"
proof (induction ps arbitrary: v n d)
  case Nil
  then show ?case by simp
next
  case (Cons ub ps)
  obtain u b where ub: "ub = (u, b)" by (cases ub)
  from Cons.prems(1) ub have "walk h v ((u, b) # ps) = Some x" by simp
  then obtain a c where
    w: "u = v" "v = Dict a" "a < length h" "map_of (h ! a) b = Some c" "walk h c ps = Some x"
    by (rule walk_Cons)
  from Cons.prems(2) w(2) have "dump n h (Dict a) = Some d" by simp
  then obtain n' js where
    n: "n = Suc n'" "d = JObj js" "dump_items n' h (h ! a) = Some js"
    by (rule dump_Dict)
  from dump_items_lookup [OF n(3) w(4)] obtain jc where
    jc: "dump n' h c = Some jc" "map_of js b = Some jc"
    by blast
  from Cons.IH [OF w(5) jc(1)] obtain j where
    j: "descend jc (map snd ps) = Some j" "dump n' h x = Some j"
    by blast
  from dump_mono(1) [OF j(2), of 1] n(1) have "dump n h x = Some j" by simp
  with j(1) jc(2) n(2) ub show ?case by simp
qed

lemma walk_last_Dict:
  "walk h v ps = Some x \<Longrightarrow> ps \<noteq> [] \<Longrightarrow> \<exists>p side. last ps = (Dict p, side)"
proof (induction ps arbitrary: v)
  case Nil
  then show ?case by simp
next
  case (Cons ub ps)
  obtain u b where ub: "ub = (u, b)" by (cases ub)
  from Cons.prems(1) ub have "walk h v ((u, b) # ps) = Some x" by simp
  then obtain a c where
    w: "u = v" "v = Dict a" "walk h c ps = Some x"
    by (rule walk_Cons)
  show ?case
  proof (cases "ps = []")
    case True
    with ub w(1,2) show ?thesis by simp
  next
    case False
    with Cons.IH [OF w(3)] show ?thesis by simp
  qed
qed

lemma learn_at_leaf:
  assumes "node self = Dict a" and "dict_get (h ! a) (lit ''guess'') = Some g"
    and "h3 = h @ [[(lit ''guess'', if flag then Str true_name else g)],
                   [(lit ''guess'', if flag then g else Str true_name)],
                   [(lit ''q'', Str (normalize_question nq)), (lit ''yes'', Dict (length h)),
                    (lit ''no'', Dict (Suc (length h)))]]"
    and "new = Dict (Suc (Suc (length h)))"
  shows "learn h dk self true_name nq flag =
     (if path self = [] then
        Inr (h3, snd (save_tree h3 new dk), self\<lparr>tree := new, node := new\<rparr>,
             fst (save_tree h3 new dk))
      else
        (case fst (last (path self)) of
           Dict p \<Rightarrow>
             Inr (h3[p := dict_set (h3 ! p) (snd (last (path self))) new],
                  snd (save_tree (h3[p := dict_set (h3 ! p) (snd (last (path self))) new])
                         (tree self) dk),
                  self\<lparr>node := new\<rparr>,
                  fst (save_tree (h3[p := dict_set (h3 ! p) (snd (last (path self))) new])
                         (tree self) dk))
         | _ \<Rightarrow> Inl TypeError))"
proof -
  from assms(2) have "lit ''guess'' \<in> fst ` set (h ! a)"
    by (metis dict_get_def map_of_SomeD fst_conv image_eqI)
  with assms(1) have "is_leaf h (node self)" by (simp add: is_leaf_def dict_has_def)
  with assms(1,2) show ?thesis unfolding assms(3,4)
    by (cases "fst (last (path self))") (simp_all add: learn_def alloc_def Let_def split_beta split: sum.splits)
qed

lemma learned_nodes_dump:
  assumes "h3 = h @ [[(lit ''guess'', if flag then Str true_name else Str old_guess)],
                   [(lit ''guess'', if flag then Str old_guess else Str true_name)],
                   [(lit ''q'', Str (normalize_question nq)), (lit ''yes'', Dict (length h)),
                    (lit ''no'', Dict (Suc (length h)))]]"
  shows "dump 2 h3 (Dict (Suc (Suc (length h)))) = Some (learned_doc old_guess true_name nq flag)"
    and "addrs 2 h3 (Dict (Suc (Suc (length h)))) = [Suc (Suc (length h)), length h, Suc (length h)]"
  unfolding assms by (simp_all add: numeral_2_eq_2 nth_append learned_doc_def)

text \<open>
  Claim C1. Take a session whose tree is a proper tree in the store (it serialises to a
  document \<open>d\<close> and no object is reached twice), whose path records the walk from the root
  to the current node, and whose current node is a leaf with guessed name \<open>old_guess\<close>.
  Then \<open>learn\<close> changes the tree, having allocated three objects: the leaf for the yes
  branch, the leaf for the no branch and the question node, whose text is
  \<open>normalize_question new_question\<close>; the yes leaf holds \<open>true_name\<close> and the no leaf
  \<open>old_guess\<close> when the flag is true, and the reverse when it is false. The question node
  is the new current node. With an empty path it becomes the tree and no existing object
  changes; otherwise the parent recorded last in the path gets the question node under the
  recorded branch, and no other existing object changes. In both cases the document of the
  tree afterwards is \<open>d\<close> with the subtree at the position of the path, which was the old
  leaf, replaced by the question node with its two leaves: one leaf has become one question
  and two leaves, one of them with the old name. That document is what \<open>save_tree\<close> is
  then given: when it can be written (no string of it has a surrogate code point and it is
  nested within the limit), \<open>learn\<close> raises nothing and the file holds it; when it cannot,
  \<open>learn\<close> ends with the exception of \<open>save_tree\<close>, the file is left unparsable, and the
  tree in memory is changed all the same.
  (A later section shows that the sessions of the program satisfy the hypotheses.)
\<close>

theorem learn_spec:
  assumes "json_dump h (tree self) = Some d"
    and "distinct (addrs (length h) h (tree self))"
    and "walk h (tree self) (path self) = Some (node self)"
    and "node self = Dict a" and "dict_get (h ! a) (lit ''guess'') = Some (Str old_guess)"
  shows "\<exists>h' dk' self' e.
      learn h dk self true_name new_question flag = Inr (h', dk', self', e)
      \<and> node self' = Dict (length h + 2) \<and> path self' = path self
      \<and> h' ! (length h + 2) = [(lit ''q'', Str (normalize_question new_question)),
             (lit ''yes'', Dict (length h)), (lit ''no'', Dict (length h + 1))]
      \<and> h' ! length h = [(lit ''guess'', Str (if flag then true_name else old_guess))]
      \<and> h' ! (length h + 1) = [(lit ''guess'', Str (if flag then old_guess else true_name))]
      \<and> (if path self = [] then tree self' = node self' \<and> (\<forall>i<length h. h' ! i = h ! i)
          else tree self' = tree self
            \<and> (\<exists>p side. last (path self) = (Dict p, side) \<and> p < length h
                  \<and> h' ! p = dict_set (h ! p) side (node self')
                  \<and> (\<forall>i<length h. i \<noteq> p \<longrightarrow> h' ! i = h ! i)))
      \<and> (\<exists>kvs. descend d (map snd (path self)) = Some (JObj kvs)
            \<and> json_dump h (node self) = Some (JObj kvs)
            \<and> map_of kvs (lit ''guess'') = Some (JStr old_guess))
      \<and> json_dump h' (tree self')
          = Some (replace_at d (map snd (path self))
                   (learned_doc old_guess true_name new_question flag))
      \<and> (e, dk') = save_tree h' (tree self') dk
      \<and> (if utf8_doc (replace_at d (map snd (path self))
                   (learned_doc old_guess true_name new_question flag))
            \<and> doc_depth (replace_at d (map snd (path self))
                   (learned_doc old_guess true_name new_question flag)) \<le> dump_limit dk
          then e = None
            \<and> data_file dk'
                = Holds (replace_at d (map snd (path self))
                         (learned_doc old_guess true_name new_question flag))
          else e \<noteq> None \<and> data_file dk' = Unparsable)"
proof -
  let ?new = "Dict (Suc (Suc (length h)))"
  let ?doc = "learned_doc old_guess true_name new_question flag :: 'a json"
  define h3 where "h3 = h @ [[(lit ''guess'', if flag then Str true_name else Str old_guess)],
                   [(lit ''guess'', if flag then Str old_guess else Str true_name)],
                   [(lit ''q'', Str (normalize_question new_question)),
                    (lit ''yes'', Dict (length h)), (lit ''no'', Dict (Suc (length h)))]]"
  from assms(1) have T: "dump (length h) h (tree self) = Some d" by (simp add: json_dump_def)
  from walk_descend [OF assms(3) T] obtain j where
    j: "descend d (map snd (path self)) = Some j" "dump (length h) h (node self) = Some j"
    by blast
  from j(2) assms(4) have "dump (length h) h (Dict a) = Some j" by simp
  then obtain n' js where
    a: "length h = Suc n'" "a < length h" "j = JObj js" "dump_items n' h (h ! a) = Some js"
    by (rule dump_Dict)
  from assms(5) have "map_of (h ! a) (lit ''guess'') = Some (Str old_guess)"
    by (simp add: dict_get_def)
  from dump_items_lookup [OF a(4) this] have g: "map_of js (lit ''guess'') = Some (JStr old_guess)"
    by (cases n') auto
  have leafdoc: "\<exists>kvs. descend d (map snd (path self)) = Some (JObj kvs)
            \<and> json_dump h (node self) = Some (JObj kvs)
            \<and> map_of kvs (lit ''guess'') = Some (JStr old_guess)"
    using j a(3) g by (simp add: json_dump_def)
  note nd = learned_nodes_dump [OF h3_def]
  have l3: "length h3 = length h + 3" by (simp add: h3_def)
  have ext: "length h \<le> length h3" "\<forall>i<length h. h3 ! i = h ! i"
    by (simp_all add: h3_def nth_append)
  have fresh: "\<forall>x\<in>set (addrs 2 h3 ?new). length h \<le> x" by (simp add: nd(2))
  have cells: "h3 ! (length h + 2) = [(lit ''q'', Str (normalize_question new_question)),
             (lit ''yes'', Dict (length h)), (lit ''no'', Dict (length h + 1))]"
    "h3 ! length h = [(lit ''guess'', Str (if flag then true_name else old_guess))]"
    "h3 ! (length h + 1) = [(lit ''guess'', Str (if flag then old_guess else true_name))]"
    by (simp_all add: h3_def nth_append)
  note unf = learn_at_leaf [OF assms(4,5) h3_def refl, where dk = dk]
  show ?thesis
  proof (cases "path self = []")
    case True
    with assms(3) have same: "node self = tree self" by simp
    with j(2) T have jd: "j = d" by simp
    from dump_mono(1) [OF nd(1), of "length h + 1"]
    have "dump (2 + (length h + 1)) h3 ?new = Some ?doc" by (rule conjunct1)
    moreover have "2 + (length h + 1) = length h3" by (simp add: l3)
    ultimately have "dump (length h3) h3 ?new = Some ?doc" by (simp only:)
    then have jn: "json_dump h3 ?new = Some ?doc" by (simp only: json_dump_def)
    from unf True have
      "learn h dk self true_name new_question flag
         = Inr (h3, snd (save_tree h3 ?new dk), self\<lparr>tree := ?new, node := ?new\<rparr>,
                fst (save_tree h3 ?new dk))"
      by simp
    with True leafdoc cells ext(2) jn save_tree_dump [OF jn, of dk] show ?thesis by simp
  next
    case False
    from walk_last_Dict [OF assms(3) False] obtain p side where
      l: "last (path self) = (Dict p, side)" by blast
    let ?h4 = "h3[p := dict_set (h3 ! p) side ?new]"
    from walk_last_addr [OF assms(3) False l T] dump_valid(1) [OF T]
    have pl: "p < length h" by blast
    from graft [OF nd(1) fresh ext refl assms(3) False l T assms(2)]
    have "dump (length h + 2) ?h4 (tree self)
            = Some (replace_at d (map snd (path self)) ?doc)" .
    from dump_mono(1) [OF this, of 1]
    have "dump (length h + 2 + 1) ?h4 (tree self)
            = Some (replace_at d (map snd (path self)) ?doc)" by (rule conjunct1)
    moreover have "length h + 2 + 1 = length ?h4" by (simp add: l3)
    ultimately have "dump (length ?h4) ?h4 (tree self)
            = Some (replace_at d (map snd (path self)) ?doc)" by (simp only:)
    then have jd: "json_dump ?h4 (tree self) = Some (replace_at d (map snd (path self)) ?doc)"
      by (simp only: json_dump_def)
    from unf False l have
      "learn h dk self true_name new_question flag
         = Inr (?h4, snd (save_tree ?h4 (tree self) dk), self\<lparr>node := ?new\<rparr>,
                fst (save_tree ?h4 (tree self) dk))"
      by simp
    moreover note save_tree_dump [OF jd, of dk]
    moreover have "?h4 ! p = dict_set (h ! p) side ?new" using pl ext by simp
    moreover have "\<forall>i<length h. i \<noteq> p \<longrightarrow> ?h4 ! i = h ! i" using ext by simp
    moreover have "?h4 ! (length h + 2) = h3 ! (length h + 2)" "?h4 ! length h = h3 ! length h"
      "?h4 ! (length h + 1) = h3 ! (length h + 1)"
      using pl by simp_all
    ultimately show ?thesis using False l pl leafdoc cells jd by simp
  qed
qed

lemma h_example_dump: "json_dump h_example (Dict 2) = Some doc_example"
  by (simp add: json_dump_def h_example_def doc_example_def numeral_3_eq_3)

lemma h_example_addrs: "addrs (length h_example) h_example (Dict 2) = [2, 0, 1]"
  by (simp add: h_example_def numeral_3_eq_3)

lemma session_example_walk:
  "walk h_example (tree session_example) (path session_example) = Some (node session_example)"
  by (simp add: session_example_def h_example_def dict_get_def lit_eq_iff)

theorem learn_spec_witness:
  "json_dump h_example (tree session_example) = Some doc_example
   \<and> walk h_example (tree session_example) (path session_example) = Some (node session_example)
   \<and> (case learn h_example disk_example session_example (lit ''Zote'') (lit ''Presume?'') True of
         Inl e \<Rightarrow> False
       | Inr (h', dk', self', e) \<Rightarrow>
           e = None \<and> node self' = Dict 5 \<and> tree self' = Dict 2
           \<and> h' ! 2 = [(lit ''q'', Str (lit ''Usa una aguja?'')), (lit ''yes'', Dict 0),
                        (lit ''no'', Dict 5)]
           \<and> json_dump h' (tree self')
               = Some (JObj [(lit ''q'', JStr (lit ''Usa una aguja?'')),
                    (lit ''yes'', JObj [(lit ''guess'', JStr (lit ''Hornet''))]),
                    (lit ''no'', JObj [(lit ''q'', JStr (lit ''Presume?'')),
                       (lit ''yes'', JObj [(lit ''guess'', JStr (lit ''Zote''))]),
                       (lit ''no'', JObj [(lit ''guess'', JStr (lit ''Nosk''))])])])
           \<and> data_file dk' = Holds (the (json_dump h' (tree self'))))"
proof -
  have t: "json_dump h_example (tree session_example) = Some doc_example"
    using h_example_dump by (simp add: session_example_def)
  have d: "distinct (addrs (length h_example) h_example (tree session_example))"
    using h_example_addrs by (simp add: session_example_def)
  have n: "node session_example = Dict 1" by (simp add: session_example_def)
  have g: "dict_get (h_example ! 1) (lit ''guess'') = Some (Str (lit ''Nosk''))"
    by (simp add: h_example_def dict_get_def)
  have q: "normalize_question (lit ''Presume?'') = lit ''Presume?''"
    by (simp add: normalize_question_def strip_def endswith_def lit_def isspace_def)
  from learn_spec [OF t d session_example_walk n g, of disk_example "lit ''Zote''" "lit ''Presume?''" True]
  obtain h' dk' self' e where
    r: "learn h_example disk_example session_example (lit ''Zote'') (lit ''Presume?'') True
          = Inr (h', dk', self', e)" and
    f: "node self' = Dict (length h_example + 2)" "tree self' = tree session_example"
       "h' ! 2 = dict_set (h_example ! 2) (lit ''no'') (node self')"
       "json_dump h' (tree self')
          = Some (replace_at doc_example (map snd (path session_example))
                   (learned_doc (lit ''Nosk'') (lit ''Zote'') (lit ''Presume?'') True))" and
    g: "if utf8_doc (replace_at doc_example (map snd (path session_example))
                   (learned_doc (lit ''Nosk'') (lit ''Zote'') (lit ''Presume?'') True :: unit json))
            \<and> doc_depth (replace_at doc_example (map snd (path session_example))
                   (learned_doc (lit ''Nosk'') (lit ''Zote'') (lit ''Presume?'') True :: unit json))
               \<le> dump_limit disk_example
          then e = None
            \<and> data_file dk'
                = Holds (replace_at doc_example (map snd (path session_example))
                         (learned_doc (lit ''Nosk'') (lit ''Zote'') (lit ''Presume?'') True))
          else e \<noteq> None \<and> data_file dk' = Unparsable"
    by (auto simp: session_example_def)
  have "utf8_doc (replace_at doc_example (map snd (path session_example))
                   (learned_doc (lit ''Nosk'') (lit ''Zote'') (lit ''Presume?'') True :: unit json))
      \<and> doc_depth (replace_at doc_example (map snd (path session_example))
                   (learned_doc (lit ''Nosk'') (lit ''Zote'') (lit ''Presume?'') True :: unit json))
         \<le> dump_limit disk_example"
    by (simp add: session_example_def doc_example_def learned_doc_def utf8_encodable_def
        normalize_question_def strip_def endswith_def isspace_def lit_def disk_example_def)
  with g have "e = None"
    "data_file dk'
       = Holds (replace_at doc_example (map snd (path session_example))
                (learned_doc (lit ''Nosk'') (lit ''Zote'') (lit ''Presume?'') True))"
    by simp_all
  with r f t session_example_walk q show ?thesis
    by (simp add: session_example_def h_example_def doc_example_def learned_doc_def lit_eq_iff)
qed

section \<open>Answering along the tree\<close>

lemma dump_items_lookup_doc:
  "dump_items n h its = Some js \<Longrightarrow> map_of js b = Some jc \<Longrightarrow>
     \<exists>c. map_of its b = Some c \<and> dump n h c = Some jc"
proof (induction its arbitrary: js)
  case Nil
  then show ?case by simp
next
  case (Cons kv its)
  obtain k' v' where kv: "kv = (k', v')" by (cases kv)
  from Cons.prems(1) kv obtain j' js' where
    d1: "dump n h v' = Some j'" and d2: "dump_items n h its = Some js'" and
    js: "js = (k', j') # js'"
    by (auto split: option.splits)
  show ?case
  proof (cases "k' = b")
    case True
    with Cons.prems(2) js have "jc = j'" by simp
    with d1 True kv show ?thesis by simp
  next
    case False
    with Cons.prems(2) js have "map_of js' b = Some jc" by simp
    from Cons.IH [OF d2 this] False kv show ?thesis by simp
  qed
qed

lemma dump_JObj:
  assumes "dump n h v = Some (JObj kvs)"
  obtains a n' where "v = Dict a" "n = Suc n'" "a < length h"
    "dump_items n' h (h ! a) = Some kvs"
proof (cases v)
  case (Dict a)
  with assms have "dump n h (Dict a) = Some (JObj kvs)" by simp
  then obtain n' js where "n = Suc n'" "a < length h" "JObj kvs = JObj js"
    "dump_items n' h (h ! a) = Some js"
    by (rule dump_Dict)
  with Dict that show ?thesis by simp
qed (use assms in simp_all)

lemma is_leaf_dump:
  assumes "dump n h v = Some (JObj kvs)"
  shows "is_leaf h v \<longleftrightarrow> lit ''guess'' \<in> fst ` set kvs"
proof -
  from assms obtain a n' where
    a: "v = Dict a" "dump_items n' h (h ! a) = Some kvs"
    by (rule dump_JObj)
  from dump_items_keys [OF a(2)] have "fst ` set (h ! a) = fst ` set kvs"
    by (metis list.set_map)
  with a(1) show ?thesis by (simp add: is_leaf_def dict_has_def)
qed

lemma answer_follow:
  assumes "dump n h (node self) = Some (JObj kvs)"
    and "lit ''guess'' \<notin> fst ` set kvs"
    and "map_of kvs (if ans = lit ''yes'' then lit ''yes'' else lit ''no'') = Some c"
  shows "\<exists>self'. answer h self ans = Inr (h, self') \<and> dump n h (node self') = Some c
           \<and> tree self' = tree self"
proof -
  let ?b = "if ans = lit ''yes'' then lit ''yes'' else lit ''no''"
  from assms(1) obtain a n' where
    a: "node self = Dict a" "n = Suc n'" "dump_items n' h (h ! a) = Some kvs"
    by (rule dump_JObj)
  from is_leaf_dump [OF assms(1)] assms(2) have nl: "\<not> is_leaf h (node self)" by simp
  from dump_items_lookup_doc [OF a(3) assms(3)] obtain v where
    v: "map_of (h ! a) ?b = Some v" "dump n' h v = Some c"
    by blast
  from dump_mono(1) [OF v(2), of 1] a(2) have "dump n h v = Some c" by simp
  moreover from nl a(1) v(1) have
    "answer h self ans = Inr (h, self\<lparr>path := path self @ [(node self, ?b)], node := v\<rparr>)"
    by (simp add: answer_def Let_def dict_get_def)
  ultimately show ?thesis by simp
qed

lemma answers_follow:
  "follow d as = Some d' \<Longrightarrow> dump n h (node self) = Some d \<Longrightarrow>
     \<exists>self'. answers h self as = Inr (h, self') \<and> dump n h (node self') = Some d'
        \<and> tree self' = tree self"
proof (induction as arbitrary: d self)
  case Nil
  then show ?case by simp
next
  case (Cons ans rest)
  from Cons.prems(1) obtain kvs where d: "d = JObj kvs" by (cases d) simp_all
  let ?b = "if ans = lit ''yes'' then lit ''yes'' else lit ''no''"
  from Cons.prems(2) d have dn: "dump n h (node self) = Some (JObj kvs)" by simp
  show ?case
  proof (cases "lit ''guess'' \<in> fst ` set kvs")
    case True
    with Cons.prems(1) d have f: "follow d rest = Some d'" by simp
    from is_leaf_dump [OF dn] True have "answer h self ans = Inr (h, self)"
      by (simp add: answer_def)
    with Cons.IH [OF f Cons.prems(2)] show ?thesis by simp
  next
    case ng: False
    with Cons.prems(1) d obtain c where
      c: "map_of kvs ?b = Some c" "follow c rest = Some d'"
      by (auto split: option.splits)
    from answer_follow [OF dn ng c(1)] obtain self1 where
      s1: "answer h self ans = Inr (h, self1)" "dump n h (node self1) = Some c"
        "tree self1 = tree self"
      by blast
    from Cons.IH [OF c(2) s1(2)] obtain self' where
      "answers h self1 rest = Inr (h, self')" "dump n h (node self') = Some d'"
      "tree self' = tree self1"
      by blast
    with s1 show ?thesis by simp
  qed
qed

lemma default_tree_doc_distinct: "distinct_keys (default_tree_doc :: 'a json)"
  by (simp add: default_tree_doc_def lit_eq_iff)

lemma default_tree_doc_yes:
  "follow (default_tree_doc :: 'a json) [lit ''yes'', lit ''yes'', lit ''yes'']
     = Some (JObj [(lit ''guess'', JStr (lit ''Radiancia''))])"
  by (simp add: default_tree_doc_def lit_eq_iff)

lemma default_tree_doc_no:
  "follow (default_tree_doc :: 'a json) (replicate 9 (lit ''no''))
     = Some (JObj [(lit ''guess'', JStr (lit ''El Caballero''))])"
  by (simp add: default_tree_doc_def lit_eq_iff numeral_eq_Suc)

lemma default_tree_doc_no_eight:
  "follow (default_tree_doc :: 'a json) (replicate 8 (lit ''no''))
     = Some (JObj [(lit ''guess'', JStr (lit ''El Caballero''))])"
  by (simp add: default_tree_doc_def lit_eq_iff numeral_eq_Suc)

text \<open>
  Claim C2. Whatever the store holds when \<open>default_tree\<close> builds the tree, a session
  started at its root and answered \<open>yes\<close>, \<open>yes\<close>, \<open>yes\<close> ends, without an error and
  without touching the store, on a leaf that is exactly \<open>{"guess": "Radiancia"}\<close>; answered
  \<open>no\<close> nine times it ends on the leaf \<open>{"guess": "El Caballero"}\<close>. (That leaf is
  reached with the eighth answer; the ninth finds the session on a leaf and is ignored.)
\<close>

theorem default_tree_answers:
  "\<exists>t h s1 s2. default_tree h0 = (t, h)
     \<and> answers h (GameState_init t) [lit ''yes'', lit ''yes'', lit ''yes''] = Inr (h, s1)
     \<and> json_dump h (node s1) = Some (JObj [(lit ''guess'', JStr (lit ''Radiancia''))])
     \<and> is_leaf h (node s1)
     \<and> answers h (GameState_init t) (replicate 9 (lit ''no'')) = Inr (h, s2)
     \<and> json_dump h (node s2) = Some (JObj [(lit ''guess'', JStr (lit ''El Caballero''))])
     \<and> is_leaf h (node s2)"
proof -
  obtain t h where l: "json_load default_tree_doc h0 = (t, h)" by (meson surj_pair)
  from json_load_json_dump [OF l default_tree_doc_distinct]
  have "dump (length h) h (node (GameState_init t)) = Some default_tree_doc"
    by (simp add: json_dump_def GameState_init_def)
  from answers_follow [OF default_tree_doc_yes this] answers_follow [OF default_tree_doc_no this]
  obtain s1 s2 where
    a1: "answers h (GameState_init t) [lit ''yes'', lit ''yes'', lit ''yes''] = Inr (h, s1)" and
    d1: "dump (length h) h (node s1) = Some (JObj [(lit ''guess'', JStr (lit ''Radiancia''))])" and
    a2: "answers h (GameState_init t) (replicate 9 (lit ''no'')) = Inr (h, s2)" and
    d2: "dump (length h) h (node s2) = Some (JObj [(lit ''guess'', JStr (lit ''El Caballero''))])"
    by blast
  from is_leaf_dump [OF d1] is_leaf_dump [OF d2] have "is_leaf h (node s1)" "is_leaf h (node s2)"
    by simp_all
  with l a1 d1 a2 d2 show ?thesis by (simp add: default_tree_def json_dump_def)
qed

theorem default_tree_answers_witness:
  "\<exists>t h s1 s2. default_tree ([] :: unit heap) = (t, h)
     \<and> answers h (GameState_init t) [lit ''yes'', lit ''yes'', lit ''yes''] = Inr (h, s1)
     \<and> json_dump h (node s1) = Some (JObj [(lit ''guess'', JStr (lit ''Radiancia''))])
     \<and> is_leaf h (node s1)
     \<and> answers h (GameState_init t) (replicate 9 (lit ''no'')) = Inr (h, s2)
     \<and> json_dump h (node s2) = Some (JObj [(lit ''guess'', JStr (lit ''El Caballero''))])
     \<and> is_leaf h (node s2)"
  by (rule default_tree_answers)

section \<open>Saving in place\<close>

text \<open>
  Claim C8, as stated, fails: with a complete tree in the file, saving the tree again
  first truncates the file, and a crash at that point leaves a file that holds neither the
  old nor the new document.
\<close>

theorem save_tree_not_crash_safe:
  "data_file disk_saved = Holds doc_example
   \<and> json_dump h_example (Dict 2) = Some doc_example
   \<and> data_file (save_tree_steps h_example (Dict 2) disk_saved ! 0) = Unparsable
   \<and> \<not> crash_safe h_example (Dict 2) disk_saved"
  by (simp add: crash_safe_def save_tree_steps_def disk_saved_def h_example_dump doc_example_def
      utf8_encodable_def lit_def dump_error_ok)

text \<open>
  Claim C8, amended. \<open>save_tree\<close> overwrites the knowledge file in place. When it runs to
  completion, which it does exactly when the document of the tree can be written, the file
  holds exactly that document, whatever it held before; when \<open>json.dump\<close> raises, the file
  is left unparsable. The statistics file is untouched. Before the end, from the \<open>open\<close>
  on, the file is truncated: a crash during the save leaves a file that cannot be parsed, so
  the save is safe against a crash only if the file could not be parsed in the first place.
\<close>

theorem save_tree_in_place:
  assumes "json_dump h t = Some d"
  shows "(if utf8_doc d \<and> doc_depth d \<le> dump_limit dk
          then save_tree h t dk = (None, dk\<lparr>data_file := Holds d\<rparr>)
            \<and> save_tree_steps h t dk
                = [dk\<lparr>data_file := Unparsable\<rparr>, dk\<lparr>data_file := Holds d\<rparr>]
          else (\<exists>e. save_tree h t dk = (Some e, dk\<lparr>data_file := Unparsable\<rparr>))
            \<and> save_tree_steps h t dk = [dk\<lparr>data_file := Unparsable\<rparr>])
     \<and> last (save_tree_steps h t dk) = snd (save_tree h t dk)
     \<and> stats_file (last (save_tree_steps h t dk)) = stats_file dk
     \<and> (crash_safe h t dk \<longleftrightarrow> data_file dk = Unparsable)"
  using assms dump_error_None_iff(1) [of "dump_limit dk" d]
  by (auto simp: save_tree_def save_tree_steps_def crash_safe_def split: option.splits)

theorem save_tree_in_place_witness:
  "json_dump h_example (Dict 2) = Some doc_example
   \<and> save_tree h_example (Dict 2) disk_saved = (None, disk_saved)
   \<and> save_tree_steps h_example (Dict 2) disk_saved
       = [disk_saved\<lparr>data_file := Unparsable\<rparr>, disk_saved]
   \<and> crash_safe h_example (Dict 2) (disk_saved\<lparr>data_file := Unparsable\<rparr>)"
  using save_tree_in_place [OF h_example_dump, of disk_saved]
    save_tree_in_place [OF h_example_dump, of "disk_saved\<lparr>data_file := Unparsable\<rparr>"]
  by (simp add: h_example_dump disk_saved_def doc_example_def utf8_encodable_def lit_def)

section \<open>The tree stays a proper tree\<close>

text \<open>
  The hypotheses under which \<open>learn\<close> is specified hold for the sessions that the program
  creates. A tree that \<open>json_load\<close> has built (from the default tree, the knowledge file or
  an imported file) is a proper tree, and answering from its root keeps the path a record of
  the walk (\<open>loaded_session\<close>); grafting the learned node leaves a proper tree
  (\<open>graft_addrs\<close>, \<open>learn_keeps_tree\<close>), on which the next game starts with an empty path.
\<close>

lemma addrs_unchanged:
  assumes "dump n h v = Some j" and "p \<notin> set (addrs n h v)"
    and "length h \<le> length h4" and "\<forall>i<length h. i \<noteq> p \<longrightarrow> h4 ! i = h ! i"
  shows "addrs (n + k) h4 v = addrs n h v"
proof -
  from assms(1) have "\<forall>a \<in> set (addrs n h v). a < length h" by (rule dump_valid(1))
  with assms(2,3,4) have "\<forall>a \<in> set (addrs n h v). a < length h4 \<and> h4 ! a = h ! a"
    by fastforce
  with assms(1) have f: "dump n h4 v = Some j \<and> addrs n h4 v = addrs n h v"
    by (rule dump_frame(1))
  then have "addrs (n + k) h4 v = addrs n h4 v" using dump_mono(1) by blast
  with f show ?thesis by simp
qed

lemma addrs_items_unchanged:
  assumes "dump_items n h d = Some js" and "p \<notin> set (addrs_items n h d)"
    and "length h \<le> length h4" and "\<forall>i<length h. i \<noteq> p \<longrightarrow> h4 ! i = h ! i"
  shows "addrs_items (n + k) h4 d = addrs_items n h d"
proof -
  from assms(1) have "\<forall>a \<in> set (addrs_items n h d). a < length h" by (rule dump_valid(2))
  with assms(2,3,4) have "\<forall>a \<in> set (addrs_items n h d). a < length h4 \<and> h4 ! a = h ! a"
    by fastforce
  with assms(1) have f: "dump_items n h4 d = Some js \<and> addrs_items n h4 d = addrs_items n h d"
    by (rule dump_frame(2))
  then have "addrs_items (n + k) h4 d = addrs_items n h4 d" using dump_mono(2) by blast
  with f show ?thesis by simp
qed

lemma addrs_items_dict_set:
  assumes "dump_items n h its = Some js" and "map_of its b = Some c"
    and "p \<notin> set (addrs_items n h its)" and "distinct (addrs_items n h its)"
    and "length h \<le> length h4" and "\<forall>i<length h. i \<noteq> p \<longrightarrow> h4 ! i = h ! i"
    and "addrs (n + k) h4 new = A" and "distinct A" and "\<forall>x\<in>set A. length h \<le> x"
  shows "distinct (addrs_items (n + k) h4 (dict_set its b new))
     \<and> set (addrs_items (n + k) h4 (dict_set its b new)) \<subseteq> set (addrs_items n h its) \<union> set A"
  using assms(1,2,3,4)
proof (induction its arbitrary: js)
  case Nil
  then show ?case by simp
next
  case (Cons kv its)
  obtain k' v' where kv: "kv = (k', v')" by (cases kv)
  from Cons.prems(1) kv obtain j' js' where
    d1: "dump n h v' = Some j'" and d2: "dump_items n h its = Some js'"
    by (auto split: option.splits)
  from Cons.prems(3) kv have p1: "p \<notin> set (addrs n h v')" and p2: "p \<notin> set (addrs_items n h its)"
    by simp_all
  from Cons.prems(4) kv have di: "distinct (addrs_items n h its)" and dv: "distinct (addrs n h v')"
    and dj: "set (addrs n h v') \<inter> set (addrs_items n h its) = {}"
    by simp_all
  have old1: "\<forall>x\<in>set (addrs n h v'). x < length h" using d1 by (rule dump_valid(1))
  have old2: "\<forall>x\<in>set (addrs_items n h its). x < length h" using d2 by (rule dump_valid(2))
  show ?case
  proof (cases "k' = b")
    case True
    from addrs_items_unchanged [OF d2 p2 assms(5,6)]
    have "addrs_items (n + k) h4 its = addrs_items n h its" .
    with True kv assms(7) have
      e: "addrs_items (n + k) h4 (dict_set (kv # its) b new) = A @ addrs_items n h its"
      by simp
    have "set A \<inter> set (addrs_items n h its) = {}" using old2 assms(9) by fastforce
    with e di assms(8) kv show ?thesis by auto
  next
    case False
    with Cons.prems(2) kv have m: "map_of its b = Some c" by simp
    from addrs_unchanged [OF d1 p1 assms(5,6)] have u: "addrs (n + k) h4 v' = addrs n h v'" .
    from Cons.IH [OF d2 m p2 di] have
      ih: "distinct (addrs_items (n + k) h4 (dict_set its b new))"
        "set (addrs_items (n + k) h4 (dict_set its b new)) \<subseteq> set (addrs_items n h its) \<union> set A"
      by simp_all
    have "set (addrs n h v') \<inter> set A = {}" using old1 assms(9) by fastforce
    with dj ih(2) have "set (addrs n h v') \<inter> set (addrs_items (n + k) h4 (dict_set its b new)) = {}"
      by blast
    with u ih dv False kv show ?thesis by auto
  qed
qed

lemma addrs_items_graft:
  assumes "dump_items n h its = Some js" and "map_of its b = Some c"
    and "distinct (addrs_items n h its)" and "p \<in> set (addrs n h c)"
    and "length h \<le> length h4" and "\<forall>i<length h. i \<noteq> p \<longrightarrow> h4 ! i = h ! i"
    and "\<forall>x\<in>A. length h \<le> x"
    and "distinct (addrs (n + k) h4 c)"
    and "set (addrs (n + k) h4 c) \<subseteq> set (addrs n h c) \<union> A"
  shows "distinct (addrs_items (n + k) h4 its)
     \<and> set (addrs_items (n + k) h4 its) \<subseteq> set (addrs_items n h its) \<union> A"
  using assms(1,2,3)
proof (induction its arbitrary: js)
  case Nil
  then show ?case by simp
next
  case (Cons kv its)
  obtain k' v' where kv: "kv = (k', v')" by (cases kv)
  from Cons.prems(1) kv obtain j' js' where
    d1: "dump n h v' = Some j'" and d2: "dump_items n h its = Some js'"
    by (auto split: option.splits)
  from Cons.prems(3) kv have di: "distinct (addrs_items n h its)" and dv: "distinct (addrs n h v')"
    and dj: "set (addrs n h v') \<inter> set (addrs_items n h its) = {}"
    by simp_all
  have old1: "\<forall>x\<in>set (addrs n h v'). x < length h" using d1 by (rule dump_valid(1))
  have old2: "\<forall>x\<in>set (addrs_items n h its). x < length h" using d2 by (rule dump_valid(2))
  show ?case
  proof (cases "k' = b")
    case True
    with Cons.prems(2) kv have c: "c = v'" by simp
    with assms(4) dj have "p \<notin> set (addrs_items n h its)" by auto
    from addrs_items_unchanged [OF d2 this assms(5,6)]
    have u: "addrs_items (n + k) h4 its = addrs_items n h its" .
    have "A \<inter> set (addrs_items n h its) = {}" using old2 assms(7) by fastforce
    with dj assms(9) c have "set (addrs (n + k) h4 v') \<inter> set (addrs_items n h its) = {}"
      by blast
    with u di assms(8,9) c kv show ?thesis by auto
  next
    case False
    with Cons.prems(2) kv have m: "map_of its b = Some c" by simp
    from dump_items_lookup [OF d2 m]
    have "set (addrs n h c) \<subseteq> set (addrs_items n h its)" by blast
    with assms(4) dj have "p \<notin> set (addrs n h v')" by auto
    from addrs_unchanged [OF d1 this assms(5,6)] have u: "addrs (n + k) h4 v' = addrs n h v'" .
    from Cons.IH [OF d2 m di] have
      ih: "distinct (addrs_items (n + k) h4 its)"
        "set (addrs_items (n + k) h4 its) \<subseteq> set (addrs_items n h its) \<union> A"
      by simp_all
    have "set (addrs n h v') \<inter> A = {}" using old1 assms(7) by fastforce
    with dj ih(2) have "set (addrs n h v') \<inter> set (addrs_items (n + k) h4 its) = {}"
      by blast
    with u ih dv kv show ?thesis by auto
  qed
qed

lemma graft_addrs:
  assumes new: "dump k h3 new = Some newdoc" "\<forall>a\<in>set (addrs k h3 new). length h \<le> a"
      "distinct (addrs k h3 new)"
    and ext: "length h \<le> length h3" "\<forall>i<length h. h3 ! i = h ! i"
    and h4: "h4 = h3[p := dict_set (h3 ! p) side new]"
  shows "walk h v ps = Some x \<Longrightarrow> ps \<noteq> [] \<Longrightarrow> last ps = (Dict p, side) \<Longrightarrow>
     dump n h v = Some d \<Longrightarrow> distinct (addrs n h v) \<Longrightarrow>
     distinct (addrs (n + k) h4 v)
     \<and> set (addrs (n + k) h4 v) \<subseteq> set (addrs n h v) \<union> set (addrs k h3 new)"
proof (induction ps arbitrary: v n d)
  case Nil
  then show ?case by simp
next
  case (Cons ub ps)
  obtain u b where ub: "ub = (u, b)" by (cases ub)
  from Cons.prems(1) ub have "walk h v ((u, b) # ps) = Some x" by simp
  then obtain a c where
    w: "u = v" "v = Dict a" "a < length h" "map_of (h ! a) b = Some c" "walk h c ps = Some x"
    by (rule walk_Cons)
  from Cons.prems(4) w(2) have "dump n h (Dict a) = Some d" by simp
  then obtain n' js where
    n: "n = Suc n'" "d = JObj js" "dump_items n' h (h ! a) = Some js"
    by (rule dump_Dict)
  from Cons.prems(5) w(2) n(1) have
    an: "a \<notin> set (addrs_items n' h (h ! a))" and di: "distinct (addrs_items n' h (h ! a))"
    by simp_all
  from walk_last_addr [OF Cons.prems(1,2,3,4)] have "p \<in> set (addrs n h v)" .
  with dump_valid(1) [OF Cons.prems(4)] have pl: "p < length h" by blast
  have len: "length h \<le> length h4" using ext(1) h4 by simp
  have same: "\<forall>i<length h. i \<noteq> p \<longrightarrow> h4 ! i = h ! i" using ext h4 by simp
  have atp: "h4 ! p = dict_set (h ! p) side new" using ext pl h4 by simp
  let ?A = "addrs k h3 new"
  have newa: "addrs (n' + k) h4 new = ?A"
  proof -
    from dump_valid(1) [OF new(1)] new(2) pl
    have "\<forall>a\<in>set (addrs k h3 new). a < length h4 \<and> h4 ! a = h3 ! a"
      using h4 by fastforce
    with new(1) have f: "dump k h4 new = Some newdoc \<and> addrs k h4 new = addrs k h3 new"
      by (rule dump_frame(1))
    then have "addrs (k + n') h4 new = addrs k h4 new" using dump_mono(1) by blast
    with f show ?thesis by (simp add: add.commute)
  qed
  have fresh: "\<forall>x\<in>set ?A. length h \<le> x" using new(2) .
  have "distinct (addrs_items (n' + k) h4 (h4 ! a))
     \<and> set (addrs_items (n' + k) h4 (h4 ! a)) \<subseteq> set (addrs_items n' h (h ! a)) \<union> set ?A"
  proof (cases "ps = []")
    case True
    with Cons.prems(3) ub w(1,2) have pa: "p = a" "side = b" by simp_all
    from an pa have "p \<notin> set (addrs_items n' h (h ! a))" by simp
    from addrs_items_dict_set [OF n(3) w(4) this di len same newa new(3) fresh] atp pa
    show ?thesis by simp
  next
    case False
    with Cons.prems(3) have l: "last ps = (Dict p, side)" by simp
    from dump_items_lookup [OF n(3) w(4)] obtain jc0 where
      jc0: "dump n' h c = Some jc0" "set (addrs n' h c) \<subseteq> set (addrs_items n' h (h ! a))"
      by blast
    from walk_last_addr [OF w(5) False l jc0(1)] have pc: "p \<in> set (addrs n' h c)" .
    with jc0(2) an have "p \<noteq> a" by auto
    with same w(3) have ata: "h4 ! a = h ! a" by simp
    from addrs_items_lookup_distinct [OF di w(4)] have dc: "distinct (addrs n' h c)" .
    from Cons.IH [OF w(5) False l jc0(1) dc] have
      ih: "distinct (addrs (n' + k) h4 c)"
        "set (addrs (n' + k) h4 c) \<subseteq> set (addrs n' h c) \<union> set ?A"
      by simp_all
    from addrs_items_graft [OF n(3) w(4) di pc len same fresh ih] ata
    show ?thesis by simp
  qed
  moreover have "a \<notin> set ?A" using w(3) fresh by fastforce
  ultimately show ?case using w(2) n(1) an by auto
qed

lemma learn_keeps_tree:
  assumes "json_dump h (tree self) = Some d"
    and "distinct (addrs (length h) h (tree self))"
    and "walk h (tree self) (path self) = Some (node self)"
    and "node self = Dict a" and "dict_get (h ! a) (lit ''guess'') = Some (Str old_guess)"
    and "learn h dk self true_name new_question flag = Inr (h', dk', self', e)"
  shows "distinct (addrs (length h') h' (tree self'))"
proof -
  let ?new = "Dict (Suc (Suc (length h)))"
  define h3 where "h3 = h @ [[(lit ''guess'', if flag then Str true_name else Str old_guess)],
                   [(lit ''guess'', if flag then Str old_guess else Str true_name)],
                   [(lit ''q'', Str (normalize_question new_question)),
                    (lit ''yes'', Dict (length h)), (lit ''no'', Dict (Suc (length h)))]]"
  from assms(1) have T: "dump (length h) h (tree self) = Some d" by (simp add: json_dump_def)
  note nd = learned_nodes_dump [OF h3_def]
  have l3: "length h3 = length h + 3" by (simp add: h3_def)
  have ext: "length h \<le> length h3" "\<forall>i<length h. h3 ! i = h ! i"
    by (simp_all add: h3_def nth_append)
  have fresh: "\<forall>x\<in>set (addrs 2 h3 ?new). length h \<le> x" by (simp add: nd(2))
  have dnew: "distinct (addrs 2 h3 ?new)" by (simp add: nd(2))
  note unf = learn_at_leaf [OF assms(4,5) h3_def refl, where dk = dk]
  show ?thesis
  proof (cases "path self = []")
    case True
    with unf assms(6) have r: "h' = h3" "tree self' = ?new"
      by (auto split: sum.splits)
    from dump_mono(1) [OF nd(1), of "length h + 1"]
    have "addrs (2 + (length h + 1)) h3 ?new = addrs 2 h3 ?new" by (rule conjunct2)
    moreover have "2 + (length h + 1) = length h3" by (simp add: l3)
    ultimately have "addrs (length h3) h3 ?new = addrs 2 h3 ?new" by (simp only:)
    with dnew r show ?thesis by simp
  next
    case False
    from walk_last_Dict [OF assms(3) False] obtain p side where
      l: "last (path self) = (Dict p, side)" by blast
    let ?h4 = "h3[p := dict_set (h3 ! p) side ?new]"
    from unf False l assms(6) have r: "h' = ?h4" "tree self' = tree self"
      by (auto split: sum.splits)
    from graft [OF nd(1) fresh ext refl assms(3) False l T assms(2)]
    have g: "dump (length h + 2) ?h4 (tree self)
            = Some (replace_at d (map snd (path self))
                 (learned_doc old_guess true_name new_question flag))" .
    from graft_addrs [OF nd(1) fresh dnew ext refl assms(3) False l T assms(2)]
    have ga: "distinct (addrs (length h + 2) ?h4 (tree self))" by (rule conjunct1)
    from dump_mono(1) [OF g, of 1]
    have "addrs (length h + 2 + 1) ?h4 (tree self) = addrs (length h + 2) ?h4 (tree self)"
      by (rule conjunct2)
    moreover have "length h + 2 + 1 = length ?h4" by (simp add: l3)
    ultimately have "addrs (length ?h4) ?h4 (tree self) = addrs (length h + 2) ?h4 (tree self)"
      by (simp only:)
    with ga r show ?thesis by simp
  qed
qed

lemma walk_snoc:
  "walk h v ps = Some x \<Longrightarrow> x = Dict a \<Longrightarrow> a < length h \<Longrightarrow>
     dict_get (h ! a) b = Some c \<Longrightarrow> walk h v (ps @ [(x, b)]) = Some c"
proof (induction ps arbitrary: v)
  case Nil
  then show ?case by simp
next
  case (Cons ub ps)
  obtain u b' where ub: "ub = (u, b')" by (cases ub)
  from Cons.prems(1) ub have "walk h v ((u, b') # ps) = Some x" by simp
  then obtain a' c' where
    w: "u = v" "v = Dict a'" "a' < length h" "map_of (h ! a') b' = Some c'"
      "walk h c' ps = Some x"
    by (rule walk_Cons)
  from Cons.IH [OF w(5) Cons.prems(2,3,4)] w(1,2,3,4) ub show ?case
    by (simp add: dict_get_def)
qed

lemma answer_follow_walk:
  assumes "dump n h (node self) = Some (JObj kvs)"
    and "lit ''guess'' \<notin> fst ` set kvs"
    and "map_of kvs (if ans = lit ''yes'' then lit ''yes'' else lit ''no'') = Some c"
    and "walk h (tree self) (path self) = Some (node self)"
  shows "\<exists>self'. answer h self ans = Inr (h, self') \<and> dump n h (node self') = Some c
           \<and> tree self' = tree self \<and> walk h (tree self') (path self') = Some (node self')"
proof -
  let ?b = "if ans = lit ''yes'' then lit ''yes'' else lit ''no''"
  from assms(1) obtain a n' where
    a: "node self = Dict a" "n = Suc n'" "a < length h" "dump_items n' h (h ! a) = Some kvs"
    by (rule dump_JObj)
  from is_leaf_dump [OF assms(1)] assms(2) have nl: "\<not> is_leaf h (node self)" by simp
  from dump_items_lookup_doc [OF a(4) assms(3)] obtain v where
    v: "map_of (h ! a) ?b = Some v" "dump n' h v = Some c"
    by blast
  from dump_mono(1) [OF v(2), of 1] a(2) have "dump n h v = Some c" by simp
  moreover from nl a(1) v(1) have
    "answer h self ans = Inr (h, self\<lparr>path := path self @ [(node self, ?b)], node := v\<rparr>)"
    by (simp add: answer_def Let_def dict_get_def)
  moreover from v(1) have "dict_get (h ! a) ?b = Some v" by (simp add: dict_get_def)
  from walk_snoc [OF assms(4) a(1,3) this]
  have "walk h (tree self) (path self @ [(node self, ?b)]) = Some v" .
  ultimately show ?thesis by simp
qed

lemma answers_follow_walk:
  "follow d as = Some d' \<Longrightarrow> dump n h (node self) = Some d \<Longrightarrow>
   walk h (tree self) (path self) = Some (node self) \<Longrightarrow>
     \<exists>self'. answers h self as = Inr (h, self') \<and> dump n h (node self') = Some d'
        \<and> tree self' = tree self \<and> walk h (tree self') (path self') = Some (node self')"
proof (induction as arbitrary: d self)
  case Nil
  then show ?case by simp
next
  case (Cons ans rest)
  from Cons.prems(1) obtain kvs where d: "d = JObj kvs" by (cases d) simp_all
  let ?b = "if ans = lit ''yes'' then lit ''yes'' else lit ''no''"
  from Cons.prems(2) d have dn: "dump n h (node self) = Some (JObj kvs)" by simp
  show ?case
  proof (cases "lit ''guess'' \<in> fst ` set kvs")
    case True
    with Cons.prems(1) d have f: "follow d rest = Some d'" by simp
    from is_leaf_dump [OF dn] True have "answer h self ans = Inr (h, self)"
      by (simp add: answer_def)
    with Cons.IH [OF f Cons.prems(2,3)] show ?thesis by simp
  next
    case ng: False
    with Cons.prems(1) d obtain c where
      c: "map_of kvs ?b = Some c" "follow c rest = Some d'"
      by (auto split: option.splits)
    from answer_follow_walk [OF dn ng c(1) Cons.prems(3)] obtain self1 where
      s1: "answer h self ans = Inr (h, self1)" "dump n h (node self1) = Some c"
        "tree self1 = tree self" "walk h (tree self1) (path self1) = Some (node self1)"
      by blast
    from Cons.IH [OF c(2) s1(2,4)] obtain self' where
      "answers h self1 rest = Inr (h, self')" "dump n h (node self') = Some d'"
      "tree self' = tree self1" "walk h (tree self') (path self') = Some (node self')"
      by blast
    with s1 show ?thesis by simp
  qed
qed

lemma loaded_session:
  assumes "json_load d h0 = (t, h)" and "distinct_keys d" and "follow d as = Some d'"
  shows "\<exists>s. answers h (GameState_init t) as = Inr (h, s)
     \<and> json_dump h (tree s) = Some d \<and> distinct (addrs (length h) h (tree s))
     \<and> walk h (tree s) (path s) = Some (node s) \<and> json_dump h (node s) = Some d'"
proof -
  from json_load_ext(1) [OF assms(1)] obtain e where e: "h = h0 @ e" ..
  from json_load_dump(1) [OF assms(1,2)] have
    a: "dump (length h - length h0) h t = Some d" "distinct (addrs (length h - length h0) h t)"
    by simp_all
  from dump_mono(1) [OF a(1), of "length h0"] e
  have b: "dump (length h) h t = Some d" "addrs (length h) h t = addrs (length h - length h0) h t"
    by (simp_all add: add.commute)
  have n: "dump (length h) h (node (GameState_init t)) = Some d" using b(1)
    by (simp add: GameState_init_def)
  have w: "walk h (tree (GameState_init t)) (path (GameState_init t)) = Some (node (GameState_init t))"
    by (simp add: GameState_init_def)
  from answers_follow_walk [OF assms(3) n w] obtain s where
    "answers h (GameState_init t) as = Inr (h, s)" "dump (length h) h (node s) = Some d'"
    "tree s = tree (GameState_init t)" "walk h (tree s) (path s) = Some (node s)"
    by blast
  with a(2) b show ?thesis by (auto simp: json_dump_def GameState_init_def)
qed

section \<open>Saving and loading again\<close>

lemma dump_error_numeral:
  "dump_error (numeral k) (JObj kvs) = dump_error_items (pred_numeral k) kvs"
  by (simp add: numeral_eq_Suc)

lemma dump_items_all:
  "(\<forall>kv \<in> set its. \<exists>j. dump n h (snd kv) = Some j \<and> distinct_keys j) \<Longrightarrow>
     \<exists>js. dump_items n h its = Some js \<and> distinct_keys_items js"
proof (induction its)
  case Nil
  then show ?case by simp
next
  case (Cons kv its)
  obtain k v where kv: "kv = (k, v)" by (cases kv)
  from Cons.prems kv obtain j where j: "dump n h v = Some j" "distinct_keys j" by auto
  from Cons.prems have "\<forall>kv \<in> set its. \<exists>j. dump n h (snd kv) = Some j \<and> distinct_keys j" by simp
  from Cons.IH [OF this] obtain js where "dump_items n h its = Some js" "distinct_keys_items js"
    by blast
  with j kv show ?case by simp
qed

lemma wf_at_items:
  assumes "wf_at (Suc n) h (Dict a)" and "(k, v) \<in> set (h ! a)"
  shows "(\<exists>s. v = Str s) \<or> wf_at n h v"
proof -
  from assms(1) have d: "distinct (map fst (h ! a))" by simp
  from d assms(2) have m: "map_of (h ! a) k = Some v" by (rule map_of_is_SomeI)
  from assms(2) have kin: "k \<in> fst ` set (h ! a)" by force
  show ?thesis
  proof (cases "dict_has (h ! a) (lit ''guess'')")
    case True
    with assms(1) kin have "k = lit ''guess''" by simp
    with True assms(1) m show ?thesis
      by (auto simp: dict_get_def simp del: map_of_eq_Some_iff split: option.splits val.splits)
  next
    case False
    with assms(1) kin have "k = lit ''q'' \<or> k = lit ''yes'' \<or> k = lit ''no''" by auto
    with False assms(1) m show ?thesis
      by (auto simp: dict_get_def simp del: map_of_eq_Some_iff split: option.splits val.splits)
  qed
qed

lemma wf_at_dump: "wf_at n h v \<Longrightarrow> \<exists>d. dump n h v = Some d \<and> distinct_keys d"
proof (induction n arbitrary: v)
  case 0
  then show ?case by (cases v) simp_all
next
  case (Suc n)
  from Suc.prems obtain a where v: "v = Dict a" by (cases v) simp_all
  with Suc.prems have wf: "wf_at (Suc n) h (Dict a)" by simp
  then have a: "a < length h" "distinct (map fst (h ! a))" by simp_all
  have "\<forall>kv \<in> set (h ! a). \<exists>j. dump n h (snd kv) = Some j \<and> distinct_keys j"
  proof
    fix kv assume "kv \<in> set (h ! a)"
    then have "(fst kv, snd kv) \<in> set (h ! a)" by simp
    from wf_at_items [OF wf this] show "\<exists>j. dump n h (snd kv) = Some j \<and> distinct_keys j"
    proof
      assume "\<exists>s. snd kv = Str s"
      then show ?thesis by auto
    next
      assume "wf_at n h (snd kv)"
      then show ?thesis by (rule Suc.IH)
    qed
  qed
  from dump_items_all [OF this] obtain js where
    js: "dump_items n h (h ! a) = Some js" "distinct_keys_items js"
    by blast
  from dump_items_keys [OF js(1)] a(2) have "distinct (map fst js)" by simp
  with js a(1) v show ?case by simp
qed

lemma dump_eq_at: "dump n h v = Some d \<Longrightarrow> dump m h' v' = Some d \<Longrightarrow> eq_at n h v h' v'"
proof (induction n arbitrary: v v' d m)
  case 0
  then show ?case
    by (cases v; cases v'; cases m) (auto split: if_splits)
next
  case (Suc n)
  show ?case
  proof (cases v)
    case (Other x)
    with Suc.prems show ?thesis by (cases v'; cases m) (auto split: if_splits)
  next
    case (Str s)
    with Suc.prems show ?thesis by (cases v'; cases m) (auto split: if_splits)
  next
    case (Dict a)
    with Suc.prems(1) have "dump (Suc n) h (Dict a) = Some d" by simp
    then obtain n' js where
      a: "Suc n = Suc n'" "a < length h" "d = JObj js" "dump_items n' h (h ! a) = Some js"
      by (rule dump_Dict)
    from a(1,4) have ia: "dump_items n h (h ! a) = Some js" by simp
    from Suc.prems(2) a(3) have "dump m h' v' = Some (JObj js)" by simp
    then obtain b m' where
      b: "v' = Dict b" "m = Suc m'" "b < length h'" "dump_items m' h' (h' ! b) = Some js"
      by (rule dump_JObj)
    from dump_items_keys [OF ia] dump_items_keys [OF b(4)]
    have keys: "fst ` set (h ! a) = fst ` set (h' ! b)"
      by (metis list.set_map)
    have "case (dict_get (h ! a) k, dict_get (h' ! b) k) of
            (Some x, Some y) \<Rightarrow> eq_at n h x h' y
          | _ \<Rightarrow> False" if k: "k \<in> fst ` set (h ! a)" for k
    proof -
      from k obtain x where x: "map_of (h ! a) k = Some x"
        by (metis map_of_eq_None_iff not_Some_eq)
      from k keys obtain y where y: "map_of (h' ! b) k = Some y"
        by (metis map_of_eq_None_iff not_Some_eq)
      from dump_items_lookup [OF ia x] obtain jc where
        jc: "dump n h x = Some jc" "map_of js k = Some jc" by blast
      from dump_items_lookup [OF b(4) y] obtain jc' where
        jc': "dump m' h' y = Some jc'" "map_of js k = Some jc'" by blast
      from jc(2) jc'(2) have "jc' = jc" by simp
      with jc' have "dump m' h' y = Some jc" by simp
      from Suc.IH [OF jc(1) this] x y show ?thesis by (simp add: dict_get_def)
    qed
    with Dict a(2) b(1,3) keys show ?thesis by simp
  qed
qed

text \<open>
  Claim C6, as stated, fails. The tree of one leaf whose name is a lone surrogate is
  well-formed, yet \<open>save_tree\<close> raises \<open>UnicodeEncodeError\<close> on it and leaves a file
  that \<open>load_tree\<close> cannot parse.
\<close>

theorem save_load_surrogate:
  "wf_tree h_surrogate (Dict 0)
   \<and> save_tree h_surrogate (Dict 0) disk_example
       = (Some UnicodeEncodeError, disk_example\<lparr>data_file := Unparsable\<rparr>)
   \<and> load_tree h_surrogate (snd (save_tree h_surrogate (Dict 0) disk_example))
       = Inl JSONDecodeError"
  by (simp add: wf_tree_def h_surrogate_def dict_has_def dict_get_def save_tree_def json_dump_def
      disk_example_def utf8_encodable_def load_tree_def dump_error_numeral)

text \<open>
  Claim C6, amended. Take a well-formed tree (every node either a leaf with exactly the key
  \<open>guess\<close> and a string, or a question with exactly the keys \<open>q\<close>, \<open>yes\<close>, \<open>no\<close>, a
  non-empty question text ending in a question mark and two well-formed children). It has a
  document. When no string of the tree has a surrogate code point and the tree is nested
  within the limit of \<open>json.dump\<close>, \<open>save_tree\<close> raises nothing and writes the
  document; a later \<open>load_tree\<close>, from whatever store, then leaves the file as it is and
  returns a tree that is structurally equal to the tree saved, unless the tree is nested
  beyond the limit of \<open>json.load\<close>, in which case \<open>load_tree\<close> raises
  \<open>RecursionError\<close>. Otherwise \<open>save_tree\<close> raises, and the file it leaves cannot be
  loaded.
\<close>

theorem save_load_roundtrip:
  assumes "wf_tree h t"
  shows "\<exists>d. json_dump h t = Some d
     \<and> (if utf8_doc d \<and> doc_depth d \<le> dump_limit dk
        then save_tree h t dk = (None, dk\<lparr>data_file := Holds d\<rparr>)
          \<and> (if doc_depth d \<le> load_limit dk
              then \<forall>h2. \<exists>t' h'. load_tree h2 (snd (save_tree h t dk))
                                   = Inr (t', h', snd (save_tree h t dk))
                     \<and> struct_eq h t h' t'
              else \<forall>h2. load_tree h2 (snd (save_tree h t dk)) = Inl RecursionError)
        else (\<exists>e. save_tree h t dk = (Some e, dk\<lparr>data_file := Unparsable\<rparr>))
          \<and> (\<forall>h2. load_tree h2 (snd (save_tree h t dk)) = Inl JSONDecodeError))"
proof -
  from assms have "wf_at (length h) h t" by (simp add: wf_tree_def)
  from wf_at_dump [OF this] obtain d where
    d: "dump (length h) h t = Some d" and dk: "distinct_keys d"
    by blast
  then have jd: "json_dump h t = Some d" by (simp add: json_dump_def)
  note s = save_tree_dump [OF jd, of dk]
  show ?thesis
  proof (cases "utf8_doc d \<and> doc_depth d \<le> dump_limit dk")
    case True
    with s(1) have sv: "save_tree h t dk = (None, dk\<lparr>data_file := Holds d\<rparr>)" by simp
    have "\<exists>t' h'. load_tree h2 (snd (save_tree h t dk)) = Inr (t', h', snd (save_tree h t dk))
            \<and> struct_eq h t h' t'" if ll: "doc_depth d \<le> load_limit dk" for h2
    proof -
      obtain t' h' where l: "json_load d h2 = (t', h')" by (meson surj_pair)
      from l dk have "json_dump h' t' = Some d" by (rule json_load_json_dump)
      then have "dump (length h') h' t' = Some d" by (simp add: json_dump_def)
      with d have "eq_at (length h) h t h' t'" by (rule dump_eq_at)
      then have "struct_eq h t h' t'" by (simp add: struct_eq_def)
      moreover from l sv ll have
        "load_tree h2 (snd (save_tree h t dk)) = Inr (t', h', snd (save_tree h t dk))"
        by (simp add: load_tree_def)
      ultimately show ?thesis by blast
    qed
    moreover have "load_tree h2 (snd (save_tree h t dk)) = Inl RecursionError"
      if "\<not> doc_depth d \<le> load_limit dk" for h2
      using that sv by (simp add: load_tree_def)
    ultimately show ?thesis using jd sv True by simp
  next
    case False
    from s(2) [OF False] obtain e where "dump_error (dump_limit dk) d = Some e" by blast
    with s(1) False have sv: "save_tree h t dk = (Some e, dk\<lparr>data_file := Unparsable\<rparr>)"
      by simp
    then have "load_tree h2 (snd (save_tree h t dk)) = Inl JSONDecodeError" for h2
      by (simp add: load_tree_def)
    with jd sv False show ?thesis by simp
  qed
qed

theorem save_load_roundtrip_witness:
  "wf_tree h_example (Dict 2)
   \<and> (case save_tree h_example (Dict 2) disk_example of
         (Some e, dk1) \<Rightarrow> False
       | (None, dk1) \<Rightarrow>
           (case load_tree h_example dk1 of
              Inl e \<Rightarrow> False
            | Inr (t', h', dk2) \<Rightarrow>
                t' = Dict 5 \<and> struct_eq h_example (Dict 2) h' t' \<and> dk2 = dk1))"
  using save_load_roundtrip [of h_example "Dict 2" disk_example]
  by (simp add: wf_tree_def struct_eq_def json_dump_def h_example_def disk_example_def
      save_tree_def load_tree_def alloc_def lit_eq_iff endswith_def lit_def dict_has_def
      dict_get_def utf8_encodable_def dump_error_ok numeral_3_eq_3)

end
